theory Spec2Isabelle
  imports Complex_Main
begin

section \<open>World model (SparseWorld/Environment.py)\<close>

text \<open>
  Python floats are modelled as reals, with exact arithmetic; only the sampling of
  angles in \<open>np.arange\<close> is modelled with the rounding of double precision, because
  there it decides how many results a scan has. A position is the pair
  \<open>(pos[0], pos[1])\<close>.
  The motion model is an external contract; it is a record of the two functions the
  environment calls on it.
\<close>

type_synonym position = "real \<times> real"

record Obstacle =
  top :: real
  left :: real
  bottom :: real
  right :: real

record ('st, 'inp) MotionModel =
  step :: "'st \<Rightarrow> 'inp \<Rightarrow> bool \<Rightarrow> 'st"
  state_2_position :: "'st \<Rightarrow> position"

record ('st, 'inp) Environment =
  env_size :: "real \<times> real"
  motion_model :: "('st, 'inp) MotionModel"
  agent_state :: "'st"
  obstacles :: "Obstacle list"

definition add_obstacle ::
  "('st, 'inp) Environment \<Rightarrow> Obstacle \<Rightarrow> ('st, 'inp) Environment \<times> bool" where
  "add_obstacle e obs =
     (if left obs \<ge> 0 \<and> right obs \<le> fst (env_size e) \<and> bottom obs \<ge> 0 \<and> top obs \<le> snd (env_size e)
      then (e\<lparr>obstacles := obstacles e @ [obs]\<rparr>, True)
      else (e, False))"


definition position_out_of_bounds :: "('st, 'inp) Environment \<Rightarrow> position \<Rightarrow> bool" where
  "position_out_of_bounds e pos =
     (fst pos < 0 \<or> fst pos > fst (env_size e) \<or> snd pos < 0 \<or> snd pos > snd (env_size e))"

definition state_out_of_bounds :: "('st, 'inp) Environment \<Rightarrow> 'st \<Rightarrow> bool" where
  "state_out_of_bounds e s = position_out_of_bounds e (state_2_position (motion_model e) s)"

definition position_in_obstacle :: "position \<Rightarrow> Obstacle \<Rightarrow> bool" where
  "position_in_obstacle pos obs =
     (fst pos \<ge> left obs \<and> fst pos \<le> right obs \<and> snd pos \<ge> bottom obs \<and> snd pos \<le> top obs)"

definition state_in_obstacle :: "('st, 'inp) Environment \<Rightarrow> 'st \<Rightarrow> Obstacle \<Rightarrow> bool" where
  "state_in_obstacle e s obs = position_in_obstacle (state_2_position (motion_model e) s) obs"

fun state_in_obstacles_loop :: "('st, 'inp) Environment \<Rightarrow> 'st \<Rightarrow> Obstacle list \<Rightarrow> bool" where
  "state_in_obstacles_loop e s [] = False"
| "state_in_obstacles_loop e s (obs # rest) =
     (if state_in_obstacle e s obs then True else state_in_obstacles_loop e s rest)"

definition state_in_obstacles :: "('st, 'inp) Environment \<Rightarrow> 'st \<Rightarrow> bool" where
  "state_in_obstacles e s = state_in_obstacles_loop e s (obstacles e)"

definition agent_take_step ::
  "('st, 'inp) Environment \<Rightarrow> 'inp \<Rightarrow> bool \<Rightarrow> ('st, 'inp) Environment \<times> bool" where
  "agent_take_step e inp braking =
     (let new_state = step (motion_model e) (agent_state e) inp braking
      in if \<not> state_out_of_bounds e new_state \<and> \<not> state_in_obstacles e new_state
         then (e\<lparr>agent_state := new_state\<rparr>, True)
         else (e, False))"

subsection \<open>Ray tracing against axis-aligned boxes\<close>

text \<open>
  The running interval of the slab algorithm starts at \<open>(-inf, inf)\<close>: \<open>ext\<close> adds the
  two infinities to the reals. \<open>ext_max\<close> and \<open>ext_min\<close> are Python's two-argument
  \<open>max\<close> and \<open>min\<close>, which return the second argument only when it is strictly
  greater (smaller) than the first.
\<close>

datatype ext = NInf | Fin real | PInf

fun ext_less :: "ext \<Rightarrow> ext \<Rightarrow> bool" where
  "ext_less (Fin a) (Fin b) = (a < b)"
| "ext_less NInf NInf = False"
| "ext_less NInf (Fin b) = True"
| "ext_less NInf PInf = True"
| "ext_less (Fin a) PInf = True"
| "ext_less (Fin a) NInf = False"
| "ext_less PInf b = False"

definition ext_max :: "ext \<Rightarrow> ext \<Rightarrow> ext" where
  "ext_max a b = (if ext_less a b then b else a)"

definition ext_min :: "ext \<Rightarrow> ext \<Rightarrow> ext" where
  "ext_min a b = (if ext_less b a then b else a)"

text \<open>
  What the source can do besides returning a value: the Python exceptions, and
  \<open>NonFinite\<close> for an array that would hold an infinite or undefined coordinate
  (the product of an infinity with a direction).
\<close>

datatype fault =
  IndexError | TypeError | AttributeError | ValueError | ZeroDivisionError | NonFinite

record RayTraceResult =
  collide :: bool
  endpoint :: position


definition padd :: "position \<Rightarrow> position \<Rightarrow> position" where
  "padd p q = (fst p + fst q, snd p + snd q)"

definition psub :: "position \<Rightarrow> position \<Rightarrow> position" where
  "psub p q = (fst p - fst q, snd p - snd q)"

definition pscale :: "real \<Rightarrow> position \<Rightarrow> position" where
  "pscale t p = (t * fst p, t * snd p)"


text \<open>Coordinate \<open>i\<close> of a position, and rows 0 and 1 of the array
  \<open>box = [[left, bottom], [right, top]]\<close>.\<close>

definition coord :: "position \<Rightarrow> nat \<Rightarrow> real" where
  "coord p i = (if i = 0 then fst p else snd p)"

definition box0 :: "Obstacle \<Rightarrow> nat \<Rightarrow> real" where
  "box0 obs i = (if i = 0 then left obs else bottom obs)"

definition box1 :: "Obstacle \<Rightarrow> nat \<Rightarrow> real" where
  "box1 obs i = (if i = 0 then right obs else top obs)"

text \<open>
  The loop over the coordinates. \<open>None\<close> is the early return from inside the loop
  (no collision, endpoint \<open>p1\<close>); \<open>Some (tmin, tmax)\<close> is the interval after the last
  coordinate.
\<close>

fun slab_loop ::
  "position \<Rightarrow> position \<Rightarrow> Obstacle \<Rightarrow> nat list \<Rightarrow> ext \<times> ext \<Rightarrow> (ext \<times> ext) option" where
  "slab_loop p0 d obs [] (tmin, tmax) = Some (tmin, tmax)"
| "slab_loop p0 d obs (i # rest) (tmin, tmax) =
     (if coord d i \<noteq> 0 then
        (let t1 = (box0 obs i - coord p0 i) / coord d i;
             t2 = (box1 obs i - coord p0 i) / coord d i
         in slab_loop p0 d obs rest
              (ext_max tmin (Fin (min t1 t2)), ext_min tmax (Fin (max t1 t2))))
      else if coord p0 i \<le> box0 obs i \<or> coord p0 i \<ge> box1 obs i then None
      else slab_loop p0 d obs rest (tmin, tmax))"

definition ray_intersect_obstacle :: "position \<times> position \<Rightarrow> Obstacle \<Rightarrow> fault + RayTraceResult" where
  "ray_intersect_obstacle ray obs =
     (let p0 = fst ray; p1 = snd ray; d = psub p1 p0
      in if position_in_obstacle p0 obs then Inr \<lparr>collide = False, endpoint = p0\<rparr>
         else (case slab_loop p0 d obs [0, 1] (NInf, PInf) of
                 None \<Rightarrow> Inr \<lparr>collide = False, endpoint = p1\<rparr>
               | Some (tmin, tmax) \<Rightarrow>
                   if ext_less tmin tmax \<and> ext_less (Fin 0) tmax \<and> ext_less tmin (Fin 1)
                   then (case tmin of
                           Fin t \<Rightarrow> Inr \<lparr>collide = True, endpoint = padd p0 (pscale t d)\<rparr>
                         | _ \<Rightarrow> Inl NonFinite)
                   else Inr \<lparr>collide = False, endpoint = p1\<rparr>))"













subsection \<open>The slab parameters in closed form\<close>

text \<open>
  The entry and exit parameters of the ray on one axis, and the interval that remains
  after narrowing on every axis along which the ray moves. They are only used where at
  least one of the two directional components is not zero.
\<close>

definition entry_param :: "position \<Rightarrow> position \<Rightarrow> Obstacle \<Rightarrow> nat \<Rightarrow> real" where
  "entry_param p0 d obs i =
     min ((box0 obs i - coord p0 i) / coord d i) ((box1 obs i - coord p0 i) / coord d i)"

definition exit_param :: "position \<Rightarrow> position \<Rightarrow> Obstacle \<Rightarrow> nat \<Rightarrow> real" where
  "exit_param p0 d obs i =
     max ((box0 obs i - coord p0 i) / coord d i) ((box1 obs i - coord p0 i) / coord d i)"

definition slab_tmin :: "position \<Rightarrow> position \<Rightarrow> Obstacle \<Rightarrow> real" where
  "slab_tmin p0 d obs =
     (if coord d 0 \<noteq> 0 \<and> coord d 1 \<noteq> 0 then max (entry_param p0 d obs 0) (entry_param p0 d obs 1)
      else if coord d 0 \<noteq> 0 then entry_param p0 d obs 0 else entry_param p0 d obs 1)"

definition slab_tmax :: "position \<Rightarrow> position \<Rightarrow> Obstacle \<Rightarrow> real" where
  "slab_tmax p0 d obs =
     (if coord d 0 \<noteq> 0 \<and> coord d 1 \<noteq> 0 then min (exit_param p0 d obs 0) (exit_param p0 d obs 1)
      else if coord d 0 \<noteq> 0 then exit_param p0 d obs 0 else exit_param p0 d obs 1)"

subsection \<open>What a cone scan reports\<close>




subsection \<open>A concrete world\<close>

text \<open>
  The world of the module's own demonstration: 100 by 100, with the obstacle
  \<open>Obstacle(top=53, bottom=49, left=52, right=55)\<close>. The motion model stands in for
  the external one: the state is the position and a step adds the input to it.
\<close>

definition point_model :: "(position, position) MotionModel" where
  "point_model = \<lparr>step = (\<lambda>s u braking. padd s u), state_2_position = (\<lambda>s. s)\<rparr>"

definition demo_obstacle :: Obstacle where
  "demo_obstacle = \<lparr>top = 53, left = 52, bottom = 49, right = 55\<rparr>"

definition demo_env :: "(position, position) Environment" where
  "demo_env = \<lparr>env_size = (100, 100), motion_model = point_model,
                agent_state = (50, 50), obstacles = [demo_obstacle]\<rparr>"



section \<open>Planner (SparseWorld/Planner.py)\<close>

text \<open>
  A grid coordinate is a pair of integers. The module \<open>Map.py\<close> lies outside this
  development: what the planner uses of it is taken as given. \<open>raytrace\<close> is the
  function of that name, returning the cells of a line as one list; an
  \<open>OccupancyGrid\<close> holds the array \<open>_map\<close> with its shape, the result of
  \<open>get_binary_map()\<close> (\<open>bm_obstacle\<close> tells where it equals \<open>GridStatus.OBSTACLE\<close>)
  and the two coordinate conversions. An array is a function on the cells within its
  shape; reading and writing go through numpy's index rule, which counts a negative
  index from the end and raises \<open>IndexError\<close> outside the shape.
\<close>

type_synonym cell = "int \<times> int"

definition cell_add :: "cell \<Rightarrow> cell \<Rightarrow> cell" where
  "cell_add a b = (fst a + fst b, snd a + snd b)"

definition cell_sub :: "cell \<Rightarrow> cell \<Rightarrow> cell" where
  "cell_sub a b = (fst a - fst b, snd a - snd b)"

definition cell_pos :: "cell \<Rightarrow> position" where
  "cell_pos c = (real_of_int (fst c), real_of_int (snd c))"

definition norm_cell :: "cell \<Rightarrow> real" where
  "norm_cell c = sqrt (real_of_int (fst c * fst c + snd c * snd c))"

subsection \<open>numpy and Python indexing\<close>

text \<open>
  \<open>norm_index n i\<close> is the position that the index \<open>i\<close> denotes along an axis of
  length \<open>n\<close>, if any. \<open>arr_get\<close> and \<open>arr_set\<close> read and write one entry of a
  two-dimensional array, \<open>arr_get_all\<close> reads the entries at a list of indices (indexing
  with two index arrays), and \<open>py_index\<close> reads one row of the path array.
\<close>

definition norm_index :: "nat \<Rightarrow> int \<Rightarrow> int option" where
  "norm_index n i =
     (if 0 \<le> i \<and> i < int n then Some i
      else if - int n \<le> i \<and> i < 0 then Some (i + int n)
      else None)"

definition index2 :: "nat \<times> nat \<Rightarrow> cell \<Rightarrow> cell option" where
  "index2 sh c =
     (case norm_index (fst sh) (fst c) of
        None \<Rightarrow> None
      | Some x \<Rightarrow> (case norm_index (snd sh) (snd c) of None \<Rightarrow> None | Some y \<Rightarrow> Some (x, y)))"

definition arr_get :: "nat \<times> nat \<Rightarrow> (cell \<Rightarrow> 'a) \<Rightarrow> cell \<Rightarrow> fault + 'a" where
  "arr_get sh a c = (case index2 sh c of None \<Rightarrow> Inl IndexError | Some c' \<Rightarrow> Inr (a c'))"

definition arr_set :: "nat \<times> nat \<Rightarrow> (cell \<Rightarrow> 'a) \<Rightarrow> cell \<Rightarrow> 'a \<Rightarrow> fault + (cell \<Rightarrow> 'a)" where
  "arr_set sh a c v = (case index2 sh c of None \<Rightarrow> Inl IndexError | Some c' \<Rightarrow> Inr (a(c' := v)))"

fun arr_get_all :: "nat \<times> nat \<Rightarrow> (cell \<Rightarrow> 'a) \<Rightarrow> cell list \<Rightarrow> fault + 'a list" where
  "arr_get_all sh a [] = Inr []"
| "arr_get_all sh a (c # cs) =
     (case arr_get sh a c of
        Inl f \<Rightarrow> Inl f
      | Inr v \<Rightarrow> (case arr_get_all sh a cs of Inl f \<Rightarrow> Inl f | Inr vs \<Rightarrow> Inr (v # vs)))"

definition py_index :: "'a list \<Rightarrow> int \<Rightarrow> fault + 'a" where
  "py_index xs i =
     (case norm_index (length xs) i of None \<Rightarrow> Inl IndexError | Some j \<Rightarrow> Inr (xs ! nat j))"

subsection \<open>The map module\<close>

text \<open>
  \<open>occupancy\<close> is the array \<open>_map._map\<close> that \<open>path_valid\<close> tests for positive
  entries, \<open>grid_shape\<close> its shape.
\<close>

record BinaryMap =
  bm_shape :: "nat \<times> nat"
  bm_obstacle :: "cell \<Rightarrow> bool"

record OccupancyGrid =
  grid_shape :: "nat \<times> nat"
  occupancy :: "cell \<Rightarrow> real"
  get_binary_map :: BinaryMap
  convert_to_grid_coord :: "position \<Rightarrow> cell"
  convert_to_world_coord :: "cell \<Rightarrow> position"

type_synonym raytrace = "cell \<Rightarrow> cell \<Rightarrow> cell list"

subsection \<open>Neighbour expansion\<close>

text \<open>
  A label or an edge cost is a real number or \<open>np.inf\<close>. \<open>cost_gt a b\<close> is the
  comparison \<open>a > b\<close>. A \<open>VertexInfo\<close> is the pair of a coordinate and a cost.
  \<open>n_grid_offsets\<close> is the range both loops of \<open>get_n_grid_neighbors\<close> run through,
  \<open>n_grid_candidate\<close> the body of the inner loop for one pair of offsets.
\<close>

datatype cost = Finite real | Infinite

fun cost_add :: "cost \<Rightarrow> cost \<Rightarrow> cost" where
  "cost_add (Finite a) (Finite b) = Finite (a + b)"
| "cost_add (Finite a) Infinite = Infinite"
| "cost_add Infinite b = Infinite"

fun cost_gt :: "cost \<Rightarrow> cost \<Rightarrow> bool" where
  "cost_gt (Finite a) (Finite b) = (a > b)"
| "cost_gt Infinite (Finite b) = True"
| "cost_gt a Infinite = False"

type_synonym VertexInfo = "cell \<times> cost"

definition n_grid_offsets :: "int \<Rightarrow> int list" where
  "n_grid_offsets n =
     (let n1 = (if n < 3 then 3 else n);
          n2 = (if n1 mod 2 = 0 then n1 + 1 else n1)
      in [(- (n2 - 1)) div 2 .. (n2 - 1) div 2 + 1 - 1])"

definition n_grid_candidate ::
  "raytrace \<Rightarrow> BinaryMap \<Rightarrow> cell \<Rightarrow> cell \<Rightarrow> fault + VertexInfo list" where
  "n_grid_candidate rt bm vertex off =
     (let pos = cell_add vertex off
      in if \<not> (fst off = 0 \<and> snd off = 0) \<and> fst pos \<ge> 0 \<and> snd pos \<ge> 0
            \<and> fst pos < int (fst (bm_shape bm)) \<and> snd pos < int (snd (bm_shape bm))
         then (case arr_get_all (bm_shape bm) (bm_obstacle bm) (rt vertex pos) of
                 Inl f \<Rightarrow> Inl f
               | Inr vals \<Rightarrow>
                   Inr [(pos, if length (filter (\<lambda>v. v) vals) = 0 then Finite (norm_cell off)
                              else Infinite)])
         else Inr [])"

fun n_grid_loop ::
  "raytrace \<Rightarrow> BinaryMap \<Rightarrow> cell \<Rightarrow> cell list \<Rightarrow> VertexInfo list \<Rightarrow> fault + VertexInfo list" where
  "n_grid_loop rt bm vertex [] infos = Inr infos"
| "n_grid_loop rt bm vertex (off # rest) infos =
     (case n_grid_candidate rt bm vertex off of
        Inl f \<Rightarrow> Inl f
      | Inr new \<Rightarrow> n_grid_loop rt bm vertex rest (infos @ new))"

definition get_n_grid_neighbors ::
  "raytrace \<Rightarrow> int \<Rightarrow> BinaryMap \<Rightarrow> cell \<Rightarrow> fault + VertexInfo list" where
  "get_n_grid_neighbors rt n bm vertex =
     n_grid_loop rt bm vertex
       (concat (map (\<lambda>i. map (\<lambda>j. (i, j)) (n_grid_offsets n)) (n_grid_offsets n))) []"

subsection \<open>The planner object\<close>

text \<open>
  The fields \<open>_path\<close> and \<open>_path_idx\<close> are \<open>p_path\<close> and \<open>p_path_idx\<close>, with
  \<open>None\<close> as in the source. The methods of the base class \<open>Planner\<close> and of
  \<open>SearchBasedPlanner\<close> carry the name of their class; \<open>next_stop\<close>,
  \<open>take_next_stop\<close>, \<open>path_valid\<close> and \<open>plan\<close> are the methods an
  \<open>A_Star_Planner\<close> answers to. A method that changes the planner returns the new
  one. In \<open>path_valid_loop\<close> the variable \<open>start\<close> is the position handed in until
  the loop overwrites it with a cell of the path.
\<close>

record Planner =
  p_path :: "cell list option"
  p_path_idx :: "int option"
  p_map :: OccupancyGrid
  neighbor_func :: "BinaryMap \<Rightarrow> cell \<Rightarrow> fault + VertexInfo list"
  eps :: real
  heuristic :: "cell \<Rightarrow> real"

definition path :: "Planner \<Rightarrow> cell list" where
  "path p = (case p_path p of None \<Rightarrow> [] | Some xs \<Rightarrow> xs)"

definition Planner_path_valid :: "Planner \<Rightarrow> bool" where
  "Planner_path_valid p = (case p_path p of None \<Rightarrow> False | Some xs \<Rightarrow> True)"

definition Planner_next_stop :: "Planner \<Rightarrow> fault + cell" where
  "Planner_next_stop p =
     (case p_path p of
        None \<Rightarrow> Inl TypeError
      | Some xs \<Rightarrow> (case p_path_idx p of
                     None \<Rightarrow> Inl TypeError
                   | Some i \<Rightarrow> py_index xs (i + 1)))"

definition Planner_take_next_stop :: "Planner \<Rightarrow> fault + (Planner \<times> cell)" where
  "Planner_take_next_stop p =
     (case p_path p of
        None \<Rightarrow> Inl TypeError
      | Some xs \<Rightarrow> (case p_path_idx p of
                     None \<Rightarrow> Inl TypeError
                   | Some i \<Rightarrow> (case py_index xs (i + 1) of
                                  Inl f \<Rightarrow> Inl f
                                | Inr next_pos \<Rightarrow> Inr (p\<lparr>p_path_idx := Some (i + 1)\<rparr>, next_pos))))"

definition SearchBased_next_stop :: "Planner \<Rightarrow> fault + position" where
  "SearchBased_next_stop p =
     (case Planner_next_stop p of
        Inl f \<Rightarrow> Inl f
      | Inr c \<Rightarrow> Inr (convert_to_world_coord (p_map p) c))"

definition SearchBased_take_next_stop :: "Planner \<Rightarrow> fault + (Planner \<times> position)" where
  "SearchBased_take_next_stop p =
     (case Planner_take_next_stop p of
        Inl f \<Rightarrow> Inl f
      | Inr (p', c) \<Rightarrow> Inr (p', convert_to_world_coord (p_map p) c))"

fun path_valid_loop ::
  "raytrace \<Rightarrow> OccupancyGrid \<Rightarrow> cell list \<Rightarrow> int list \<Rightarrow> position \<Rightarrow> fault + bool" where
  "path_valid_loop rt m xs [] start = Inr True"
| "path_valid_loop rt m xs (i # rest) start =
     (case (if i = 0 then Inr (convert_to_grid_coord m start) else py_index xs (i - 1)) of
        Inl f \<Rightarrow> Inl f
      | Inr start' \<Rightarrow>
          (case py_index xs i of
             Inl f \<Rightarrow> Inl f
           | Inr pos \<Rightarrow>
               (case arr_get_all (grid_shape m) (occupancy m) (rt start' pos) of
                  Inl f \<Rightarrow> Inl f
                | Inr vals \<Rightarrow>
                    if length (filter (\<lambda>v. v > 0) vals) = 0 then Inr False
                    else path_valid_loop rt m xs rest (cell_pos start'))))"

definition path_valid :: "raytrace \<Rightarrow> Planner \<Rightarrow> position \<Rightarrow> fault + bool" where
  "path_valid rt p start =
     (if Planner_path_valid p then
        (case p_path p of
           None \<Rightarrow> Inl AttributeError
         | Some xs \<Rightarrow>
             (if length xs \<noteq> 1 then
                (case p_path_idx p of
                   None \<Rightarrow> Inl TypeError
                 | Some i \<Rightarrow>
                     if i + 1 \<ge> int (length xs) then Inr False
                     else path_valid_loop rt (p_map p) xs [i .. int (length xs) - 1] start)
              else
                (case p_path_idx p of
                   None \<Rightarrow> Inl TypeError
                 | Some i \<Rightarrow> path_valid_loop rt (p_map p) xs [i .. int (length xs) - 1] start)))
      else Inr False)"

definition next_stop :: "Planner \<Rightarrow> fault + (Planner \<times> position)" where
  "next_stop p =
     (case p_path p of
        None \<Rightarrow> Inl AttributeError
      | Some xs \<Rightarrow>
          (let p' = (if length xs = 1 then p\<lparr>p_path_idx := Some (- 1)\<rparr> else p)
           in case SearchBased_next_stop p' of
                Inl f \<Rightarrow> Inl f
              | Inr w \<Rightarrow> Inr (p', w)))"

definition take_next_stop :: "Planner \<Rightarrow> fault + (Planner \<times> position)" where
  "take_next_stop p =
     (case p_path p of
        None \<Rightarrow> Inl AttributeError
      | Some xs \<Rightarrow>
          (let p' = (if length xs = 1 then p\<lparr>p_path_idx := Some (- 1)\<rparr> else p)
           in SearchBased_take_next_stop p'))"

subsection \<open>Weighted A*\<close>

text \<open>
  The open list is a \<open>pqdict\<close>, a dictionary ordered by priority. It is the list of
  its items; assigning to a key replaces the priority of that key or adds the key, and
  \<open>popitem\<close> removes an item of least priority. Among items of the same least
  priority the model takes the first one of the list.
\<close>

type_synonym pqdict = "(cell \<times> cost) list"

definition pq_set :: "pqdict \<Rightarrow> cell \<Rightarrow> cost \<Rightarrow> pqdict" where
  "pq_set q k v =
     (if k \<in> fst ` set q then map (\<lambda>e. if fst e = k then (k, v) else e) q else q @ [(k, v)])"

fun pq_top :: "pqdict \<Rightarrow> (cell \<times> cost) option" where
  "pq_top [] = None"
| "pq_top (e # q) =
     (case pq_top q of
        None \<Rightarrow> Some e
      | Some m \<Rightarrow> if cost_gt (snd e) (snd m) then Some m else Some e)"

definition popitem :: "pqdict \<Rightarrow> ((cell \<times> cost) \<times> pqdict) option" where
  "popitem q =
     (case pq_top q of None \<Rightarrow> None | Some m \<Rightarrow> Some (m, filter (\<lambda>e. fst e \<noteq> fst m) q))"

record Search =
  g_arr :: "cell \<Rightarrow> cost"
  OPEN :: pqdict
  pred_arr :: "cell \<Rightarrow> cell"

text \<open>The body of the loop over the children of the expanded cell.\<close>

definition relax_child ::
  "nat \<times> nat \<Rightarrow> real \<Rightarrow> (cell \<Rightarrow> real) \<Rightarrow> cell \<Rightarrow> cell \<Rightarrow> Search \<Rightarrow> VertexInfo \<Rightarrow> fault + Search" where
  "relax_child sh e h target parent_ind s child =
     (let child_ind = fst child; child_cost = snd child
      in case arr_get sh (g_arr s) child_ind of
           Inl f \<Rightarrow> Inl f
         | Inr gc \<Rightarrow>
             (case arr_get sh (g_arr s) parent_ind of
                Inl f \<Rightarrow> Inl f
              | Inr gp \<Rightarrow>
                  if cost_gt gc (cost_add gp child_cost) then
                    (case arr_set sh (g_arr s) child_ind (cost_add gp child_cost) of
                       Inl f \<Rightarrow> Inl f
                     | Inr g' \<Rightarrow>
                         (case arr_set sh (pred_arr s) child_ind parent_ind of
                            Inl f \<Rightarrow> Inl f
                          | Inr pred' \<Rightarrow>
                              Inr (s\<lparr>g_arr := g', pred_arr := pred',
                                     OPEN := pq_set (OPEN s) child_ind
                                       (cost_add (cost_add gp child_cost)
                                          (Finite (e * h (cell_sub child_ind target))))\<rparr>)))
                  else Inr s))"

fun relax_children ::
  "nat \<times> nat \<Rightarrow> real \<Rightarrow> (cell \<Rightarrow> real) \<Rightarrow> cell \<Rightarrow> cell \<Rightarrow> Search \<Rightarrow> VertexInfo list \<Rightarrow> fault + Search" where
  "relax_children sh e h target parent_ind s [] = Inr s"
| "relax_children sh e h target parent_ind s (child # rest) =
     (case relax_child sh e h target parent_ind s child of
        Inl f \<Rightarrow> Inl f
      | Inr s' \<Rightarrow> relax_children sh e h target parent_ind s' rest)"

text \<open>
  The search loop. The result \<open>None\<close> stands for a loop that does not end;
  \<open>Some (Inr (done, s))\<close> is the flag \<open>done\<close> and the labels at the end of the loop.
\<close>

partial_function (option) astar_loop ::
  "(cell \<Rightarrow> fault + VertexInfo list) \<Rightarrow> nat \<times> nat \<Rightarrow> real \<Rightarrow> (cell \<Rightarrow> real) \<Rightarrow> cell \<Rightarrow> Search
     \<Rightarrow> (fault + bool \<times> Search) option" where
  "astar_loop nf sh e h goal_ind s =
     (case popitem (OPEN s) of
        None \<Rightarrow> Some (Inr (False, s))
      | Some (item, open') \<Rightarrow>
          (let parent_ind = fst item
           in if fst parent_ind = fst goal_ind \<and> snd parent_ind = snd goal_ind
              then Some (Inr (True, s\<lparr>OPEN := open'\<rparr>))
              else (case nf parent_ind of
                      Inl f \<Rightarrow> Some (Inl f)
                    | Inr infos \<Rightarrow>
                        (case relax_children sh e h goal_ind parent_ind (s\<lparr>OPEN := open'\<rparr>) infos of
                           Inl f \<Rightarrow> Some (Inl f)
                         | Inr s' \<Rightarrow> astar_loop nf sh e h goal_ind s'))))"

text \<open>Following the predecessors from the target back to the start.\<close>

partial_function (option) backtrack ::
  "nat \<times> nat \<Rightarrow> (cell \<Rightarrow> cell) \<Rightarrow> cell \<Rightarrow> cell \<Rightarrow> cell list \<Rightarrow> (fault + cell list) option" where
  "backtrack sh prd start pos acc =
     (if fst pos = fst start \<and> snd pos = snd start then Some (Inr (acc @ [pos]))
      else (case arr_get sh prd pos of
              Inl f \<Rightarrow> Some (Inl f)
            | Inr pos' \<Rightarrow> backtrack sh prd start pos' (acc @ [pos])))"

definition init_search :: "nat \<times> nat \<Rightarrow> real \<Rightarrow> (cell \<Rightarrow> real) \<Rightarrow> cell \<Rightarrow> cell \<Rightarrow> fault + Search" where
  "init_search sh e h start target =
     (case arr_set sh (\<lambda>c. Infinite) start (Finite 0) of
        Inl f \<Rightarrow> Inl f
      | Inr g0 \<Rightarrow>
          (case arr_get sh g0 start of
             Inl f \<Rightarrow> Inl f
           | Inr gs \<Rightarrow>
               Inr \<lparr>g_arr = g0,
                    OPEN = pq_set [] start (cost_add gs (Finite (e * h (cell_sub start target)))),
                    pred_arr = (\<lambda>c. (- 1, - 1))\<rparr>))"

definition plan_algo :: "Planner \<Rightarrow> cell \<Rightarrow> cell \<Rightarrow> (fault + Planner \<times> bool) option" where
  "plan_algo p start target =
     (if fst start = fst target \<and> snd start = snd target
      then Some (Inr (p\<lparr>p_path := Some [start]\<rparr>, True))
      else
        (let binary_map = get_binary_map (p_map p)
         in case init_search (bm_shape binary_map) (eps p) (heuristic p) start target of
              Inl f \<Rightarrow> Some (Inl f)
            | Inr s0 \<Rightarrow>
                (case astar_loop (neighbor_func p binary_map) (bm_shape binary_map) (eps p)
                        (heuristic p) target s0 of
                   None \<Rightarrow> None
                 | Some (Inl f) \<Rightarrow> Some (Inl f)
                 | Some (Inr (done, s)) \<Rightarrow>
                     if done then
                       (case backtrack (bm_shape binary_map) (pred_arr s) start target [] of
                          None \<Rightarrow> None
                        | Some (Inl f) \<Rightarrow> Some (Inl f)
                        | Some (Inr rpath) \<Rightarrow> Some (Inr (p\<lparr>p_path := Some (rev rpath)\<rparr>, True)))
                     else Some (Inr (p\<lparr>p_path := Some (rev [])\<rparr>, False)))))"

definition plan :: "Planner \<Rightarrow> position \<Rightarrow> position \<Rightarrow> (fault + Planner \<times> bool) option" where
  "plan p start target =
     (let start' = convert_to_grid_coord (p_map p) start;
          target' = convert_to_grid_coord (p_map p) target
      in case plan_algo p start' target' of
           None \<Rightarrow> None
         | Some (Inl f) \<Rightarrow> Some (Inl f)
         | Some (Inr (p', ok)) \<Rightarrow>
             if ok then Some (Inr (p'\<lparr>p_path_idx := Some 0\<rparr>, True))
             else Some (Inr (p', False)))"

subsection \<open>Calls in sequence\<close>

text \<open>
  A caller stepping through the path: a sequence of calls of \<open>next_stop\<close> and
  \<open>take_next_stop\<close>, which ends at the first call that raises.
\<close>

datatype call = NextStop | TakeNextStop

fun run_calls :: "Planner \<Rightarrow> call list \<Rightarrow> fault + Planner" where
  "run_calls p [] = Inr p"
| "run_calls p (NextStop # cs) =
     (case next_stop p of Inl f \<Rightarrow> Inl f | Inr (p', w) \<Rightarrow> run_calls p' cs)"
| "run_calls p (TakeNextStop # cs) =
     (case take_next_stop p of Inl f \<Rightarrow> Inl f | Inr (p', w) \<Rightarrow> run_calls p' cs)"

text \<open>
  A planner on which no call of \<open>plan\<close> has succeeded yet: a new one, or one on which
  \<open>plan\<close> has failed since.
\<close>

inductive never_planned :: "Planner \<Rightarrow> bool" where
  fresh: "p_path p = None \<Longrightarrow> p_path_idx p = None \<Longrightarrow> never_planned p"
| failed: "never_planned p \<Longrightarrow> plan p start target = Some (Inr (p', False)) \<Longrightarrow> never_planned p'"

subsection \<open>A concrete planner\<close>

text \<open>
  A grid of one row and three cells whose middle cell is an obstacle, with the planner
  of the module's own demonstration on it (\<open>n = 3\<close>, \<open>eps = 1\<close>, the Euclidean norm as
  heuristic). World coordinates are cut down to integers. The line between a cell and a
  neighbour of it consists of its two ends, which is all that \<open>demo_raytrace\<close> is
  used for. \<open>clear_grid\<close> has no positive cell and \<open>blocked_grid\<close> only positive ones.
\<close>

definition demo_raytrace :: raytrace where
  "demo_raytrace a b = (if a = b then [a] else [a, b])"

definition demo_grid :: OccupancyGrid where
  "demo_grid =
     \<lparr>grid_shape = (1, 3),
      occupancy = (\<lambda>c. if c = (0, 1) then 1 else 0),
      get_binary_map = \<lparr>bm_shape = (1, 3), bm_obstacle = (\<lambda>c. c = (0, 1))\<rparr>,
      convert_to_grid_coord = (\<lambda>p. (\<lfloor>fst p\<rfloor>, \<lfloor>snd p\<rfloor>)),
      convert_to_world_coord = cell_pos\<rparr>"

definition demo_planner :: Planner where
  "demo_planner =
     \<lparr>p_path = None, p_path_idx = None, p_map = demo_grid,
      neighbor_func = get_n_grid_neighbors demo_raytrace 3, eps = 1, heuristic = norm_cell\<rparr>"

definition demo_search :: Search where
  "demo_search =
     \<lparr>g_arr = (\<lambda>c. Infinite)((0, 0) := Finite 0), OPEN = [((0, 0), Finite 2)],
      pred_arr = (\<lambda>c. (- 1, - 1))\<rparr>"

definition clear_grid :: OccupancyGrid where
  "clear_grid = demo_grid\<lparr>occupancy := (\<lambda>c. 0),
                            get_binary_map := \<lparr>bm_shape = (1, 3), bm_obstacle = (\<lambda>c. False)\<rparr>\<rparr>"

definition blocked_grid :: OccupancyGrid where
  "blocked_grid = demo_grid\<lparr>occupancy := (\<lambda>c. 1),
                              get_binary_map := \<lparr>bm_shape = (1, 3), bm_obstacle = (\<lambda>c. True)\<rparr>\<rparr>"

section \<open>The grid graph and the invariants of the search\<close>

subsection \<open>The graph searched on a grid without obstacles\<close>

text \<open>
  The cells within the shape of the binary map; the half width \<open>window n\<close> of the
  square of offsets that \<open>get_n_grid_neighbors\<close> runs through; the edges, from a
  cell to every other cell of the grid within that square; the cost of a path, the sum
  of the Euclidean lengths of its steps, which is what the neighbour function charges
  on a grid without obstacles; and the paths of the grid from one cell to another.
  A heuristic is admissible for a target when it is not negative at the target and
  never exceeds the cost of a path to it. \<open>rt_in_range\<close> says that tracing a line
  between cells of the grid yields indices the binary map accepts.
\<close>

definition in_grid :: "nat \<times> nat \<Rightarrow> cell \<Rightarrow> bool" where
  "in_grid sh c = (0 \<le> fst c \<and> fst c < int (fst sh) \<and> 0 \<le> snd c \<and> snd c < int (snd sh))"

definition window :: "int \<Rightarrow> int" where
  "window n =
     (let n1 = (if n < 3 then 3 else n);
          n2 = (if n1 mod 2 = 0 then n1 + 1 else n1)
      in (n2 - 1) div 2)"

definition is_edge :: "nat \<times> nat \<Rightarrow> int \<Rightarrow> cell \<Rightarrow> cell \<Rightarrow> bool" where
  "is_edge sh k u v =
     (in_grid sh u \<and> in_grid sh v \<and> u \<noteq> v
      \<and> \<bar>fst v - fst u\<bar> \<le> k \<and> \<bar>snd v - snd u\<bar> \<le> k)"

fun path_cost :: "cell list \<Rightarrow> real" where
  "path_cost (x # y # xs) = norm_cell (cell_sub y x) + path_cost (y # xs)"
| "path_cost xs = 0"

fun is_walk :: "(cell \<Rightarrow> cell \<Rightarrow> bool) \<Rightarrow> cell list \<Rightarrow> bool" where
  "is_walk E (x # y # xs) = (E x y \<and> is_walk E (y # xs))"
| "is_walk E xs = True"

definition grid_path :: "nat \<times> nat \<Rightarrow> int \<Rightarrow> cell \<Rightarrow> cell \<Rightarrow> cell list \<Rightarrow> bool" where
  "grid_path sh k a b xs =
     (xs \<noteq> [] \<and> hd xs = a \<and> last xs = b \<and> in_grid sh a \<and> is_walk (is_edge sh k) xs)"

definition rt_in_range :: "raytrace \<Rightarrow> nat \<times> nat \<Rightarrow> bool" where
  "rt_in_range rt sh =
     (\<forall>a b. in_grid sh a \<longrightarrow> in_grid sh b \<longrightarrow> (\<forall>c \<in> set (rt a b). index2 sh c \<noteq> None))"

definition obstacle_free :: "BinaryMap \<Rightarrow> bool" where
  "obstacle_free bm = (\<forall>c. \<not> bm_obstacle bm c)"

definition admissible :: "nat \<times> nat \<Rightarrow> int \<Rightarrow> (cell \<Rightarrow> real) \<Rightarrow> cell \<Rightarrow> bool" where
  "admissible sh k h t =
     (0 \<le> h (cell_sub t t)
      \<and> (\<forall>u xs. grid_path sh k u t xs \<longrightarrow> h (cell_sub u t) \<le> path_cost xs))"

subsection \<open>Labels, reversed paths and the termination measure\<close>

text \<open>
  \<open>good g xs\<close>: the list \<open>xs\<close>, read from its last element to its first, is a
  path from the start without repeated cells, and the label of each of its cells is at
  most the cost of the path up to that cell. \<open>MS g\<close> collects the simple paths from the
  start that would still improve the label of their end; it shrinks with every
  relaxation, which bounds the number of turns of the search loop.
\<close>

definition candidate :: "nat \<times> nat \<Rightarrow> cell \<Rightarrow> cell \<Rightarrow> VertexInfo list" where
  "candidate sh u off =
     (if off \<noteq> (0, 0) \<and> in_grid sh (cell_add u off)
      then [(cell_add u off, Finite (norm_cell off))] else [])"

definition nf_edges :: "(cell \<Rightarrow> fault + VertexInfo list) \<Rightarrow> nat \<times> nat \<Rightarrow> int \<Rightarrow> bool" where
  "nf_edges nf sh k =
     (\<forall>u. in_grid sh u \<longrightarrow>
        (\<exists>infos. nf u = Inr infos
           \<and> set infos = {(v, Finite (norm_cell (cell_sub v u))) | v. is_edge sh k u v}))"

definition cost_le :: "cost \<Rightarrow> cost \<Rightarrow> bool" where
  "cost_le a b = (\<not> cost_gt a b)"

fun rcost :: "cell list \<Rightarrow> real" where
  "rcost (v # u # rest) = norm_cell (cell_sub v u) + rcost (u # rest)"
| "rcost xs = 0"

fun good :: "nat \<times> nat \<Rightarrow> int \<Rightarrow> cell \<Rightarrow> (cell \<Rightarrow> cost) \<Rightarrow> cell list \<Rightarrow> bool" where
  "good sh k st g [] = False"
| "good sh k st g [v] = (v = st \<and> in_grid sh v \<and> cost_le (g v) (Finite 0))"
| "good sh k st g (v # u # rest) =
     (is_edge sh k u v \<and> v \<notin> set (u # rest)
      \<and> cost_le (g v) (Finite (rcost (v # u # rest))) \<and> good sh k st g (u # rest))"

fun simple_rwalk :: "nat \<times> nat \<Rightarrow> int \<Rightarrow> cell \<Rightarrow> cell list \<Rightarrow> bool" where
  "simple_rwalk sh k st [] = False"
| "simple_rwalk sh k st [v] = (v = st \<and> in_grid sh v)"
| "simple_rwalk sh k st (v # u # rest) =
     (is_edge sh k u v \<and> v \<notin> set (u # rest) \<and> simple_rwalk sh k st (u # rest))"

definition MS :: "nat \<times> nat \<Rightarrow> int \<Rightarrow> cell \<Rightarrow> (cell \<Rightarrow> cost) \<Rightarrow> cell list set" where
  "MS sh k st g = {xs. simple_rwalk sh k st xs \<and> cost_gt (g (hd xs)) (Finite (rcost xs))}"

definition below :: "nat \<times> nat \<Rightarrow> (cell \<Rightarrow> cost) \<Rightarrow> cell \<Rightarrow> cell set" where
  "below sh g pos = {v. in_grid sh v \<and> cost_gt (g pos) (g v)}"

subsection \<open>Invariants of the search loop\<close>

text \<open>
  The start keeps the label 0; every item of the open list carries the label of its
  cell plus the heuristic; every finite label is the cost of a good path; the
  predecessor of a labelled cell is a neighbour whose label plus the edge is at most
  the label; the target is labelled only once it is in the open list; and a labelled
  cell outside the open list has all its edges relaxed. \<open>relaxed\<close> is the state after
  a relaxation that takes place.
\<close>

definition inv_start :: "nat \<times> nat \<Rightarrow> cell \<Rightarrow> Search \<Rightarrow> bool" where
  "inv_start sh st s = (in_grid sh st \<and> g_arr s st = Finite 0)"

definition inv_open :: "nat \<times> nat \<Rightarrow> cell \<Rightarrow> (cell \<Rightarrow> real) \<Rightarrow> Search \<Rightarrow> bool" where
  "inv_open sh t h s =
     (distinct (map fst (OPEN s))
      \<and> (\<forall>e \<in> set (OPEN s). in_grid sh (fst e)
            \<and> (\<exists>x. g_arr s (fst e) = Finite x \<and> snd e = Finite (x + h (cell_sub (fst e) t)))))"

definition inv_J :: "nat \<times> nat \<Rightarrow> int \<Rightarrow> cell \<Rightarrow> (cell \<Rightarrow> cost) \<Rightarrow> bool" where
  "inv_J sh k st g =
     (\<forall>v x. g v = Finite x \<longrightarrow> (\<exists>rest. good sh k st g (v # rest) \<and> rcost (v # rest) = x))"

definition inv_pred :: "nat \<times> nat \<Rightarrow> int \<Rightarrow> cell \<Rightarrow> Search \<Rightarrow> bool" where
  "inv_pred sh k st s =
     (\<forall>v x. g_arr s v = Finite x \<longrightarrow> v \<noteq> st \<longrightarrow>
        is_edge sh k (pred_arr s v) v
        \<and> (\<exists>y. g_arr s (pred_arr s v) = Finite y
                \<and> y + norm_cell (cell_sub v (pred_arr s v)) \<le> x))"

definition inv_target :: "cell \<Rightarrow> Search \<Rightarrow> bool" where
  "inv_target t s = (t \<notin> fst ` set (OPEN s) \<longrightarrow> g_arr s t = Infinite)"

definition Settled :: "nat \<times> nat \<Rightarrow> int \<Rightarrow> cell \<Rightarrow> Search \<Rightarrow> cell set \<Rightarrow> bool" where
  "Settled sh k t s X =
     (\<forall>u y. g_arr s u = Finite y \<longrightarrow> u \<notin> fst ` set (OPEN s) \<longrightarrow> u \<noteq> t \<longrightarrow> u \<notin> X \<longrightarrow>
        (\<forall>v. is_edge sh k u v \<longrightarrow> cost_le (g_arr s v) (Finite (y + norm_cell (cell_sub v u)))))"

definition Inv0 :: "nat \<times> nat \<Rightarrow> int \<Rightarrow> cell \<Rightarrow> cell \<Rightarrow> (cell \<Rightarrow> real) \<Rightarrow> Search \<Rightarrow> bool" where
  "Inv0 sh k st t h s =
     (inv_start sh st s \<and> inv_open sh t h s \<and> inv_J sh k st (g_arr s)
      \<and> inv_pred sh k st s \<and> inv_target t s)"

definition search_post :: "nat \<times> nat \<Rightarrow> int \<Rightarrow> cell \<Rightarrow> cell \<Rightarrow> Search \<Rightarrow> bool" where
  "search_post sh k st t s =
     (inv_start sh st s \<and> inv_J sh k st (g_arr s) \<and> inv_pred sh k st s
      \<and> (\<exists>x. g_arr s t = Finite x \<and> (\<forall>ys. grid_path sh k st t ys \<longrightarrow> x \<le> path_cost ys)))"

definition relaxed :: "(cell \<Rightarrow> real) \<Rightarrow> cell \<Rightarrow> cell \<Rightarrow> Search \<Rightarrow> cell \<Rightarrow> real \<Rightarrow> Search" where
  "relaxed h t u0 s v x =
     s\<lparr>g_arr := (g_arr s)(v := Finite x), pred_arr := (pred_arr s)(v := u0),
       OPEN := pq_set (OPEN s) v (Finite (x + h (cell_sub v t)))\<rparr>"

section \<open>Properties of the world model\<close>

lemma state_in_obstacles_loop_iff:
  "state_in_obstacles_loop e s os = (\<exists>obs \<in> set os. state_in_obstacle e s obs)"
  by (induction os) auto

text \<open>
  Claim C8. \<open>add_obstacle\<close> appends the obstacle and reports success exactly when
  all four edges lie within the world bounds (left at least 0, right at most the width,
  bottom at least 0, top at most the height); otherwise it reports failure and the
  environment, in particular its obstacle list, is the one it was given.
\<close>

theorem add_obstacle_accepts_iff_in_bounds:
  "(snd (add_obstacle e obs) =
      (0 \<le> left obs \<and> right obs \<le> fst (env_size e) \<and> 0 \<le> bottom obs \<and> top obs \<le> snd (env_size e)))
   \<and> (snd (add_obstacle e obs) \<longrightarrow> obstacles (fst (add_obstacle e obs)) = obstacles e @ [obs])
   \<and> (\<not> snd (add_obstacle e obs) \<longrightarrow> fst (add_obstacle e obs) = e)"
  by (simp add: add_obstacle_def)

theorem add_obstacle_accepts_iff_in_bounds_witness:
  "snd (add_obstacle demo_env demo_obstacle)
   \<and> obstacles (fst (add_obstacle demo_env demo_obstacle)) = [demo_obstacle, demo_obstacle]
   \<and> \<not> snd (add_obstacle demo_env (demo_obstacle\<lparr>right := 101\<rparr>))
   \<and> fst (add_obstacle demo_env (demo_obstacle\<lparr>right := 101\<rparr>)) = demo_env"
  using add_obstacle_accepts_iff_in_bounds [of demo_env demo_obstacle]
        add_obstacle_accepts_iff_in_bounds [of demo_env "demo_obstacle\<lparr>right := 101\<rparr>"]
  by (simp add: demo_env_def demo_obstacle_def)

text \<open>
  Claim C9. \<open>agent_take_step\<close> commits the candidate state of the motion model and
  reports success exactly when the position of that state is within the world bounds and
  inside no obstacle, the rectangle test including the edges; otherwise it reports
  failure and returns the environment unchanged. It has no failing outcome of its own.
\<close>

theorem agent_take_step_commits_iff:
  "(snd (agent_take_step e inp braking) =
      (let new_state = step (motion_model e) (agent_state e) inp braking;
           pos = state_2_position (motion_model e) new_state
       in 0 \<le> fst pos \<and> fst pos \<le> fst (env_size e) \<and> 0 \<le> snd pos \<and> snd pos \<le> snd (env_size e)
          \<and> (\<forall>obs \<in> set (obstacles e).
                \<not> (left obs \<le> fst pos \<and> fst pos \<le> right obs \<and> bottom obs \<le> snd pos \<and> snd pos \<le> top obs))))
   \<and> (snd (agent_take_step e inp braking) \<longrightarrow>
        fst (agent_take_step e inp braking) =
          e\<lparr>agent_state := step (motion_model e) (agent_state e) inp braking\<rparr>)
   \<and> (\<not> snd (agent_take_step e inp braking) \<longrightarrow> fst (agent_take_step e inp braking) = e)"
  by (auto simp add: agent_take_step_def Let_def state_out_of_bounds_def
        position_out_of_bounds_def state_in_obstacles_def state_in_obstacles_loop_iff
        state_in_obstacle_def position_in_obstacle_def)

theorem agent_take_step_commits_iff_witness:
  "snd (agent_take_step demo_env (1, 0) False)
   \<and> fst (agent_take_step demo_env (1, 0) False) = demo_env\<lparr>agent_state := (51, 50)\<rparr>
   \<and> \<not> snd (agent_take_step demo_env (2, 0) False)
   \<and> fst (agent_take_step demo_env (2, 0) False) = demo_env
   \<and> \<not> snd (agent_take_step demo_env (51, 0) False)
   \<and> fst (agent_take_step demo_env (51, 0) False) = demo_env"
  using agent_take_step_commits_iff [of demo_env "(1, 0)" False]
        agent_take_step_commits_iff [of demo_env "(2, 0)" False]
        agent_take_step_commits_iff [of demo_env "(51, 0)" False]
  by (simp add: demo_env_def demo_obstacle_def point_model_def padd_def Let_def)

subsection \<open>The slab algorithm\<close>

lemma ext_max_Fin: "ext_max (Fin a) (Fin b) = Fin (max a b)"
  by (simp add: ext_max_def max_def)

lemma ext_min_Fin: "ext_min (Fin a) (Fin b) = Fin (min a b)"
  by (simp add: ext_min_def min_def)

lemma ext_max_NInf: "ext_max NInf (Fin b) = Fin b"
  by (simp add: ext_max_def)

lemma ext_min_PInf: "ext_min PInf (Fin b) = Fin b"
  by (simp add: ext_min_def)

lemmas ext_simps = ext_max_Fin ext_min_Fin ext_max_NInf ext_min_PInf

lemma slab_step_nz:
  "coord d i \<noteq> 0 \<Longrightarrow>
   slab_loop p0 d obs (i # rest) (tmin, tmax) =
     slab_loop p0 d obs rest (ext_max tmin (Fin (entry_param p0 d obs i)),
                              ext_min tmax (Fin (exit_param p0 d obs i)))"
  by (simp add: Let_def entry_param_def exit_param_def)

lemma slab_step_reject:
  "coord d i = 0 \<Longrightarrow> coord p0 i \<le> box0 obs i \<or> coord p0 i \<ge> box1 obs i \<Longrightarrow>
   slab_loop p0 d obs (i # rest) (tmin, tmax) = None"
  by simp

lemma slab_step_skip:
  "coord d i = 0 \<Longrightarrow> box0 obs i < coord p0 i \<Longrightarrow> coord p0 i < box1 obs i \<Longrightarrow>
   slab_loop p0 d obs (i # rest) (tmin, tmax) = slab_loop p0 d obs rest (tmin, tmax)"
  by simp

declare slab_loop.simps(2) [simp del]

lemma inside_case:
  "position_in_obstacle p0 obs \<Longrightarrow>
     ray_intersect_obstacle (p0, p1) obs = Inr \<lparr>collide = False, endpoint = p0\<rparr>"
  by (simp add: ray_intersect_obstacle_def)

lemma slab_reject_two:
  assumes "i < 2" "coord d i = 0" "coord p0 i \<le> box0 obs i \<or> coord p0 i \<ge> box1 obs i"
  shows "slab_loop p0 d obs [0, 1] acc = None"
proof -
  obtain a b where acc: "acc = (a, b)" by (cases acc)
  from assms(1) have "i = 0 \<or> i = 1" by auto
  then show ?thesis
  proof
    assume "i = 0"
    then show ?thesis using assms(2,3) acc by (simp add: slab_step_reject)
  next
    assume i1: "i = 1"
    show ?thesis
    proof (cases "coord d 0 \<noteq> 0")
      case True
      then show ?thesis using assms(2,3) acc i1
        by (simp add: slab_step_nz slab_step_reject)
    next
      case False
      show ?thesis
      proof (cases "coord p0 0 \<le> box0 obs 0 \<or> coord p0 0 \<ge> box1 obs 0")
        case True
        then show ?thesis using False acc by (simp add: slab_step_reject)
      next
        case False
        then show ?thesis using \<open>\<not> coord d 0 \<noteq> 0\<close> assms(2,3) acc i1
          by (simp add: slab_step_skip slab_step_reject)
      qed
    qed
  qed
qed

lemma reject_case:
  assumes "\<not> position_in_obstacle p0 obs"
    and "i < 2" "coord (psub p1 p0) i = 0"
        "coord p0 i \<le> box0 obs i \<or> coord p0 i \<ge> box1 obs i"
  shows "ray_intersect_obstacle (p0, p1) obs = Inr \<lparr>collide = False, endpoint = p1\<rparr>"
  using assms(1) slab_reject_two [OF assms(2,3,4)]
  by (simp add: ray_intersect_obstacle_def)

lemma slab_general_two:
  assumes a0: "coord d 0 = 0 \<longrightarrow> box0 obs 0 < coord p0 0 \<and> coord p0 0 < box1 obs 0"
      and a1: "coord d 1 = 0 \<longrightarrow> box0 obs 1 < coord p0 1 \<and> coord p0 1 < box1 obs 1"
      and nz: "coord d 0 \<noteq> 0 \<or> coord d 1 \<noteq> 0"
  shows "slab_loop p0 d obs [0, 1] (NInf, PInf) =
           Some (Fin (slab_tmin p0 d obs), Fin (slab_tmax p0 d obs))"
proof (cases "coord d 0 \<noteq> 0")
  case d0: True
  show ?thesis
  proof (cases "coord d 1 \<noteq> 0")
    case True
    then show ?thesis using d0
      by (simp add: slab_step_nz ext_simps slab_tmin_def slab_tmax_def)
  next
    case False
    then show ?thesis using d0 a1
      by (simp add: slab_step_nz slab_step_skip ext_simps slab_tmin_def slab_tmax_def)
  qed
next
  case d0: False
  then have d1: "coord d 1 \<noteq> 0" using nz by simp
  show ?thesis using d0 d1 a0
    by (simp add: slab_step_nz slab_step_skip ext_simps slab_tmin_def slab_tmax_def)
qed

lemma outside_some_axis:
  assumes "\<not> position_in_obstacle p0 obs"
      and "coord d 0 = 0 \<longrightarrow> box0 obs 0 < coord p0 0 \<and> coord p0 0 < box1 obs 0"
      and "coord d 1 = 0 \<longrightarrow> box0 obs 1 < coord p0 1 \<and> coord p0 1 < box1 obs 1"
  shows "coord d 0 \<noteq> 0 \<or> coord d 1 \<noteq> 0"
proof (rule ccontr)
  assume "\<not> (coord d 0 \<noteq> 0 \<or> coord d 1 \<noteq> 0)"
  then have "box0 obs 0 < coord p0 0" "coord p0 0 < box1 obs 0"
            "box0 obs 1 < coord p0 1" "coord p0 1 < box1 obs 1"
    using assms(2,3) by simp_all
  then have "position_in_obstacle p0 obs"
    by (simp add: position_in_obstacle_def coord_def box0_def box1_def)
  then show False using assms(1) by simp
qed

lemma general_case:
  assumes "\<not> position_in_obstacle p0 obs"
    and "\<forall>i<2. coord (psub p1 p0) i = 0 \<longrightarrow> box0 obs i < coord p0 i \<and> coord p0 i < box1 obs i"
  shows "ray_intersect_obstacle (p0, p1) obs =
           Inr (if slab_tmax p0 (psub p1 p0) obs > slab_tmin p0 (psub p1 p0) obs
                   \<and> slab_tmax p0 (psub p1 p0) obs > 0 \<and> slab_tmin p0 (psub p1 p0) obs < 1
                then \<lparr>collide = True, endpoint = padd p0 (pscale (slab_tmin p0 (psub p1 p0) obs) (psub p1 p0))\<rparr>
                else \<lparr>collide = False, endpoint = p1\<rparr>)"
proof -
  let ?d = "psub p1 p0"
  have a0: "coord ?d 0 = 0 \<longrightarrow> box0 obs 0 < coord p0 0 \<and> coord p0 0 < box1 obs 0"
    using assms(2) by simp
  have a1: "coord ?d 1 = 0 \<longrightarrow> box0 obs 1 < coord p0 1 \<and> coord p0 1 < box1 obs 1"
    using assms(2) by simp
  have nz: "coord ?d 0 \<noteq> 0 \<or> coord ?d 1 \<noteq> 0"
    by (rule outside_some_axis [OF assms(1) a0 a1])
  show ?thesis
    using assms(1) slab_general_two [OF a0 a1 nz]
    by (simp add: ray_intersect_obstacle_def Let_def)
qed


text \<open>
  Claim C5, as the code has it. For the ray from \<open>p0\<close> to \<open>p1\<close> and an obstacle:
  if \<open>p0\<close> lies inside the obstacle (edges included), no collision is reported and the
  endpoint is \<open>p0\<close>; if \<open>p0\<close> is not inside and on some axis the directional component
  is zero while \<open>p0\<close> lies outside that axis's slab or on its boundary, no collision is
  reported and the endpoint is \<open>p1\<close>; in every other case a collision is reported
  exactly when \<open>tmax > tmin\<close>, \<open>tmax > 0\<close> and \<open>tmin < 1\<close>, its point being
  \<open>p0 + tmin * (p1 - p0)\<close>, and the endpoint is \<open>p1\<close> when there is none. The three
  cases cover every input.
\<close>

theorem ray_intersect_obstacle_slab:
  "(position_in_obstacle p0 obs \<longrightarrow>
      ray_intersect_obstacle (p0, p1) obs = Inr \<lparr>collide = False, endpoint = p0\<rparr>)
   \<and> (\<not> position_in_obstacle p0 obs
        \<and> (\<exists>i<2. coord (psub p1 p0) i = 0 \<and> (coord p0 i \<le> box0 obs i \<or> box1 obs i \<le> coord p0 i)) \<longrightarrow>
      ray_intersect_obstacle (p0, p1) obs = Inr \<lparr>collide = False, endpoint = p1\<rparr>)
   \<and> (\<not> position_in_obstacle p0 obs
        \<and> (\<forall>i<2. coord (psub p1 p0) i = 0 \<longrightarrow> box0 obs i < coord p0 i \<and> coord p0 i < box1 obs i) \<longrightarrow>
      ray_intersect_obstacle (p0, p1) obs =
        Inr (if slab_tmax p0 (psub p1 p0) obs > slab_tmin p0 (psub p1 p0) obs
                \<and> slab_tmax p0 (psub p1 p0) obs > 0 \<and> slab_tmin p0 (psub p1 p0) obs < 1
             then \<lparr>collide = True,
                   endpoint = padd p0 (pscale (slab_tmin p0 (psub p1 p0) obs) (psub p1 p0))\<rparr>
             else \<lparr>collide = False, endpoint = p1\<rparr>))"
proof (intro conjI impI)
  assume "position_in_obstacle p0 obs"
  then show "ray_intersect_obstacle (p0, p1) obs = Inr \<lparr>collide = False, endpoint = p0\<rparr>"
    by (rule inside_case)
next
  assume h: "\<not> position_in_obstacle p0 obs
        \<and> (\<exists>i<2. coord (psub p1 p0) i = 0 \<and> (coord p0 i \<le> box0 obs i \<or> box1 obs i \<le> coord p0 i))"
  then obtain i where "i < 2" "coord (psub p1 p0) i = 0"
      "coord p0 i \<le> box0 obs i \<or> coord p0 i \<ge> box1 obs i" by blast
  with h show "ray_intersect_obstacle (p0, p1) obs = Inr \<lparr>collide = False, endpoint = p1\<rparr>"
    using reject_case by blast
next
  assume h: "\<not> position_in_obstacle p0 obs
        \<and> (\<forall>i<2. coord (psub p1 p0) i = 0 \<longrightarrow> box0 obs i < coord p0 i \<and> coord p0 i < box1 obs i)"
  then show "ray_intersect_obstacle (p0, p1) obs =
        Inr (if slab_tmax p0 (psub p1 p0) obs > slab_tmin p0 (psub p1 p0) obs
                \<and> slab_tmax p0 (psub p1 p0) obs > 0 \<and> slab_tmin p0 (psub p1 p0) obs < 1
             then \<lparr>collide = True,
                   endpoint = padd p0 (pscale (slab_tmin p0 (psub p1 p0) obs) (psub p1 p0))\<rparr>
             else \<lparr>collide = False, endpoint = p1\<rparr>)"
    using general_case by blast
qed

theorem ray_intersect_obstacle_slab_witness:
  "position_in_obstacle (53, 50) demo_obstacle
   \<and> ray_intersect_obstacle ((53, 50), (60, 50)) demo_obstacle = Inr \<lparr>collide = False, endpoint = (53, 50)\<rparr>
   \<and> \<not> position_in_obstacle (50, 49) demo_obstacle
   \<and> coord (psub (55, 49) (50, 49)) 1 = 0 \<and> coord (50, 49) 1 \<le> box0 demo_obstacle 1
   \<and> ray_intersect_obstacle ((50, 49), (55, 49)) demo_obstacle = Inr \<lparr>collide = False, endpoint = (55, 49)\<rparr>
   \<and> \<not> position_in_obstacle (50, 50) demo_obstacle
   \<and> ray_intersect_obstacle ((50, 50), (55, 50)) demo_obstacle = Inr \<lparr>collide = True, endpoint = (52, 50)\<rparr>"
proof -
  have h1: "position_in_obstacle (53, 50) demo_obstacle"
    by (simp add: position_in_obstacle_def demo_obstacle_def)
  have h2: "\<not> position_in_obstacle (50, 49) demo_obstacle"
    by (simp add: position_in_obstacle_def demo_obstacle_def)
  have h2': "coord (psub (55, 49) (50, 49)) 1 = 0 \<and> coord (50, 49) 1 \<le> box0 demo_obstacle 1"
    by (simp add: coord_def psub_def box0_def demo_obstacle_def)
  then have h2'': "\<exists>i<2. coord (psub (55, 49) (50, 49)) i = 0
      \<and> (coord (50, 49) i \<le> box0 demo_obstacle i \<or> box1 demo_obstacle i \<le> coord (50, 49) i)"
    by (intro exI [of _ 1]) simp
  have h3: "\<not> position_in_obstacle (50, 50) demo_obstacle"
    by (simp add: position_in_obstacle_def demo_obstacle_def)
  have h3': "\<forall>i<2. coord (psub (55, 50) (50, 50)) i = 0 \<longrightarrow>
      box0 demo_obstacle i < coord (50, 50) i \<and> coord (50, 50) i < box1 demo_obstacle i"
    by (simp add: coord_def psub_def box0_def box1_def demo_obstacle_def)
  have v: "slab_tmin (50, 50) (psub (55, 50) (50, 50)) demo_obstacle = 2 / 5"
          "slab_tmax (50, 50) (psub (55, 50) (50, 50)) demo_obstacle = 1"
    by (simp_all add: slab_tmin_def slab_tmax_def entry_param_def exit_param_def coord_def
          psub_def box0_def box1_def demo_obstacle_def)
  have c1: "ray_intersect_obstacle ((53, 50), (60, 50)) demo_obstacle = Inr \<lparr>collide = False, endpoint = (53, 50)\<rparr>"
    using ray_intersect_obstacle_slab [of "(53, 50)" demo_obstacle "(60, 50)"] h1 by blast
  have c2: "ray_intersect_obstacle ((50, 49), (55, 49)) demo_obstacle = Inr \<lparr>collide = False, endpoint = (55, 49)\<rparr>"
    using ray_intersect_obstacle_slab [of "(50, 49)" demo_obstacle "(55, 49)"] h2 h2'' by blast
  have c3: "ray_intersect_obstacle ((50, 50), (55, 50)) demo_obstacle = Inr \<lparr>collide = True, endpoint = (52, 50)\<rparr>"
  proof -
    have "ray_intersect_obstacle ((50, 50), (55, 50)) demo_obstacle =
        Inr (if slab_tmax (50, 50) (psub (55, 50) (50, 50)) demo_obstacle
                  > slab_tmin (50, 50) (psub (55, 50) (50, 50)) demo_obstacle
                \<and> slab_tmax (50, 50) (psub (55, 50) (50, 50)) demo_obstacle > 0
                \<and> slab_tmin (50, 50) (psub (55, 50) (50, 50)) demo_obstacle < 1
             then \<lparr>collide = True,
                   endpoint = padd (50, 50) (pscale (slab_tmin (50, 50) (psub (55, 50) (50, 50)) demo_obstacle)
                                 (psub (55, 50) (50, 50)))\<rparr>
             else \<lparr>collide = False, endpoint = (55, 50)\<rparr>)"
      using ray_intersect_obstacle_slab [of "(50, 50)" demo_obstacle "(55, 50)"] h3 h3' by blast
    then show ?thesis unfolding v by (simp add: padd_def pscale_def psub_def)
  qed
  show ?thesis using h1 h2 h2' h3 c1 c2 c3 by simp
qed

text \<open>
  The claim as the specification words it fails in two places. A ray that runs along
  the bottom edge of the obstacle starts on the boundary of the vertical slab, not
  outside it, and its interval satisfies \<open>tmax > tmin\<close>, \<open>tmax > 0\<close>, \<open>tmin < 1\<close>, yet
  no collision is reported. And a ray that starts inside the obstacle reports no
  collision with an endpoint that is not its far end.
\<close>

theorem ray_on_slab_boundary_counterexample:
  "\<not> position_in_obstacle (50, 49) demo_obstacle
   \<and> coord (psub (55, 49) (50, 49)) 0 \<noteq> 0
   \<and> coord (psub (55, 49) (50, 49)) 1 = 0
   \<and> \<not> (coord (50, 49) 1 < box0 demo_obstacle 1 \<or> box1 demo_obstacle 1 < coord (50, 49) 1)
   \<and> slab_tmin (50, 49) (psub (55, 49) (50, 49)) demo_obstacle = 2 / 5
   \<and> slab_tmax (50, 49) (psub (55, 49) (50, 49)) demo_obstacle = 1
   \<and> ray_intersect_obstacle ((50, 49), (55, 49)) demo_obstacle = Inr \<lparr>collide = False, endpoint = (55, 49)\<rparr>
   \<and> ray_intersect_obstacle ((53, 50), (60, 50)) demo_obstacle = Inr \<lparr>collide = False, endpoint = (53, 50)\<rparr>
   \<and> (53, 50) \<noteq> ((60, 50) :: position)"
proof -
  have h2: "\<not> position_in_obstacle (50, 49) demo_obstacle"
    by (simp add: position_in_obstacle_def demo_obstacle_def)
  have h2': "coord (psub (55, 49) (50, 49)) 1 = 0" "coord (50, 49) 1 \<le> box0 demo_obstacle 1"
    by (simp_all add: coord_def psub_def box0_def demo_obstacle_def)
  have c2: "ray_intersect_obstacle ((50, 49), (55, 49)) demo_obstacle = Inr \<lparr>collide = False, endpoint = (55, 49)\<rparr>"
    by (rule reject_case [OF h2, of 1]) (use h2' in simp_all)
  have h1: "position_in_obstacle (53, 50) demo_obstacle"
    by (simp add: position_in_obstacle_def demo_obstacle_def)
  have c1: "ray_intersect_obstacle ((53, 50), (60, 50)) demo_obstacle = Inr \<lparr>collide = False, endpoint = (53, 50)\<rparr>"
    by (rule inside_case [OF h1])
  have v: "slab_tmin (50, 49) (psub (55, 49) (50, 49)) demo_obstacle = 2 / 5"
          "slab_tmax (50, 49) (psub (55, 49) (50, 49)) demo_obstacle = 1"
          "coord (psub (55, 49) (50, 49)) 0 \<noteq> 0"
          "\<not> (coord (50, 49) 1 < box0 demo_obstacle 1 \<or> box1 demo_obstacle 1 < coord (50, 49) 1)"
    by (simp_all add: slab_tmin_def slab_tmax_def entry_param_def exit_param_def coord_def
          psub_def box0_def box1_def demo_obstacle_def)
  show ?thesis using h2 h2' c1 c2 v by simp
qed

subsection \<open>The cone scan\<close>






subsection \<open>Rounding to double precision\<close>













section \<open>Properties of the planner\<close>

lemma offsets3: "n_grid_offsets 3 = [-1, 0, 1]"
  by (simp add: n_grid_offsets_def upto_rec_numeral upto.simps)

lemma idx_demo: "index2 (1, 3) (0, 0) = Some (0, 0)" "index2 (1, 3) (0, 1) = Some (0, 1)" "index2 (1, 3) (0, 2) = Some (0, 2)"
  by (simp_all add: index2_def norm_index_def)

lemma nb00: "get_n_grid_neighbors demo_raytrace 3 \<lparr>bm_shape = (1, 3), bm_obstacle = (\<lambda>c. c = (0, 1))\<rparr> (0, 0)
   = Inr [((0, 1), Infinite)]"
  by (simp add: get_n_grid_neighbors_def offsets3 n_grid_candidate_def cell_add_def
       demo_raytrace_def arr_get_def index2_def norm_index_def Let_def)

lemma plan_algo_failure:
  assumes "plan_algo p s t = Some (Inr (p', False))"
  shows "p' = p\<lparr>p_path := Some []\<rparr>"
proof (cases "fst s = fst t \<and> snd s = snd t")
  case True
  then show ?thesis using assms by (simp add: plan_algo_def)
next
  case False
  then show ?thesis using assms
    by (simp add: plan_algo_def Let_def split: sum.splits option.splits prod.splits if_splits)
qed

lemma plan_failure:
  assumes "plan p start target = Some (Inr (p', False))"
  shows "p' = p\<lparr>p_path := Some []\<rparr>"
proof -
  let ?s = "convert_to_grid_coord (p_map p) start"
  let ?t = "convert_to_grid_coord (p_map p) target"
  from assms have "plan_algo p ?s ?t = Some (Inr (p', False))"
    by (simp add: plan_def Let_def split: sum.splits option.splits prod.splits if_splits)
  then show ?thesis by (rule plan_algo_failure)
qed

text \<open>
  Claim C10. On a planner on which no call of \<open>plan\<close> has succeeded yet, the
  attribute \<open>path\<close> is the empty sequence, of length 0: it is not a missing value and
  reading it does not fail.
\<close>

theorem path_empty_before_first_plan:
  assumes "never_planned p"
  shows "path p = [] \<and> length (path p) = 0"
  using assms
proof (induction rule: never_planned.induct)
  case (fresh p)
  then show ?case by (simp add: path_def)
next
  case (failed p start target p')
  from plan_failure [OF failed.hyps(2)] show ?case by (simp add: path_def)
qed

text \<open>
  Claim C2, as the code has it. When start and target are different cells and the
  search loop ends with an empty open list without having popped the target, \<open>plan\<close>
  reports failure and returns the planner with the stored path replaced by the empty
  sequence; the cursor and everything else are as they were.
\<close>

theorem plan_failure_path_emptied:
  assumes "convert_to_grid_coord (p_map p) start \<noteq> convert_to_grid_coord (p_map p) target"
      and "init_search (bm_shape (get_binary_map (p_map p))) (eps p) (heuristic p)
             (convert_to_grid_coord (p_map p) start) (convert_to_grid_coord (p_map p) target) = Inr s0"
      and "astar_loop (neighbor_func p (get_binary_map (p_map p))) (bm_shape (get_binary_map (p_map p)))
             (eps p) (heuristic p) (convert_to_grid_coord (p_map p) target) s0 = Some (Inr (False, s))"
  shows "plan p start target = Some (Inr (p\<lparr>p_path := Some []\<rparr>, False))"
proof -
  let ?s = "convert_to_grid_coord (p_map p) start"
  let ?t = "convert_to_grid_coord (p_map p) target"
  have ne: "\<not> (fst ?s = fst ?t \<and> snd ?s = snd ?t)"
    using assms(1) by (simp add: prod_eq_iff)
  have "plan_algo p ?s ?t = Some (Inr (p\<lparr>p_path := Some []\<rparr>, False))"
    using ne assms(2,3) by (simp add: plan_algo_def Let_def)
  then show ?thesis by (simp add: plan_def Let_def)
qed

lemma demo_init:
  "init_search (1, 3) 1 norm_cell (0, 0) (0, 2) = Inr demo_search"
  by (simp add: init_search_def arr_set_def arr_get_def index2_def norm_index_def pq_set_def
        cell_sub_def norm_cell_def demo_search_def)

lemma demo_loop:
  "astar_loop (get_n_grid_neighbors demo_raytrace 3 \<lparr>bm_shape = (1, 3), bm_obstacle = (\<lambda>c. c = (0, 1))\<rparr>)
     (1, 3) 1 norm_cell (0, 2) demo_search = Some (Inr (False, demo_search\<lparr>OPEN := []\<rparr>))"
  apply (subst astar_loop.simps)
  apply (simp add: demo_search_def popitem_def nb00 relax_child_def arr_get_def index2_def
           norm_index_def Let_def del: One_nat_def)
  apply (subst astar_loop.simps)
  apply (simp add: popitem_def)
  done

theorem plan_failure_path_emptied_witness:
  "convert_to_grid_coord (p_map demo_planner) (0, 0) \<noteq> convert_to_grid_coord (p_map demo_planner) (0, 2)
   \<and> plan demo_planner (0, 0) (0, 2) = Some (Inr (demo_planner\<lparr>p_path := Some []\<rparr>, False))"
proof -
  have a: "convert_to_grid_coord (p_map demo_planner) (0, 0) \<noteq> convert_to_grid_coord (p_map demo_planner) (0, 2)"
    by (simp add: demo_planner_def demo_grid_def)
  have b: "init_search (bm_shape (get_binary_map (p_map demo_planner))) (eps demo_planner) (heuristic demo_planner)
             (convert_to_grid_coord (p_map demo_planner) (0, 0))
             (convert_to_grid_coord (p_map demo_planner) (0, 2)) = Inr demo_search"
    using demo_init by (simp add: demo_planner_def demo_grid_def)
  have c: "astar_loop (neighbor_func demo_planner (get_binary_map (p_map demo_planner)))
             (bm_shape (get_binary_map (p_map demo_planner)))
             (eps demo_planner) (heuristic demo_planner)
             (convert_to_grid_coord (p_map demo_planner) (0, 2)) demo_search
           = Some (Inr (False, demo_search\<lparr>OPEN := []\<rparr>))"
    using demo_loop by (simp add: demo_planner_def demo_grid_def)
  from plan_failure_path_emptied [OF a b c] a show ?thesis by simp
qed

text \<open>
  The stored path is not left as it was: a planner holding a one-cell path holds the
  empty path after a failed call.
\<close>

theorem plan_failure_keeps_path_counterexample:
  "plan (demo_planner\<lparr>p_path := Some [(0, 0)], p_path_idx := Some 0\<rparr>) (0, 0) (0, 2)
     = Some (Inr (demo_planner\<lparr>p_path := Some [], p_path_idx := Some 0\<rparr>, False))
   \<and> p_path (demo_planner\<lparr>p_path := Some [(0, 0)], p_path_idx := Some 0\<rparr>) \<noteq> Some []"
proof -
  let ?p = "demo_planner\<lparr>p_path := Some [(0, 0)], p_path_idx := Some 0\<rparr>"
  have "plan_algo ?p (0, 0) (0, 2) = Some (Inr (?p\<lparr>p_path := Some []\<rparr>, False))"
    using demo_init demo_loop by (simp add: plan_algo_def Let_def demo_planner_def demo_grid_def)
  then have "plan ?p (0, 0) (0, 2) = Some (Inr (?p\<lparr>p_path := Some []\<rparr>, False))"
    by (simp add: plan_def Let_def demo_planner_def demo_grid_def)
  then show ?thesis by simp
qed

theorem path_empty_before_first_plan_witness:
  "never_planned demo_planner \<and> path demo_planner = []
   \<and> never_planned (demo_planner\<lparr>p_path := Some []\<rparr>) \<and> path (demo_planner\<lparr>p_path := Some []\<rparr>) = []"
proof -
  have a: "never_planned demo_planner"
    by (rule never_planned.fresh) (simp_all add: demo_planner_def)
  have "plan demo_planner (0, 0) (0, 2) = Some (Inr (demo_planner\<lparr>p_path := Some []\<rparr>, False))"
    using demo_init demo_loop by (simp add: plan_def plan_algo_def Let_def demo_planner_def demo_grid_def)
  with a have b: "never_planned (demo_planner\<lparr>p_path := Some []\<rparr>)"
    by (rule never_planned.failed)
  from path_empty_before_first_plan [OF a] path_empty_before_first_plan [OF b] a b
  show ?thesis by simp
qed

lemma single_next_stop:
  "p_path q = Some [c] \<Longrightarrow>
     next_stop q = Inr (q\<lparr>p_path_idx := Some (- 1)\<rparr>, convert_to_world_coord (p_map q) c)"
  by (simp add: next_stop_def SearchBased_next_stop_def Planner_next_stop_def py_index_def
        norm_index_def)

lemma single_take_next_stop:
  "p_path q = Some [c] \<Longrightarrow>
     take_next_stop q = Inr (q\<lparr>p_path_idx := Some 0\<rparr>, convert_to_world_coord (p_map q) c)"
  by (simp add: take_next_stop_def SearchBased_take_next_stop_def Planner_take_next_stop_def
        py_index_def norm_index_def)

lemma plan_same_cell:
  assumes "convert_to_grid_coord (p_map p) start = convert_to_grid_coord (p_map p) target"
  shows "plan p start target =
           Some (Inr (p\<lparr>p_path := Some [convert_to_grid_coord (p_map p) start], p_path_idx := Some 0\<rparr>, True))"
  using assms by (simp add: plan_def plan_algo_def Let_def)

text \<open>
  Claim C3, as the code has it. When start and target convert to the same cell,
  \<open>plan\<close> succeeds with the path of that one cell and the cursor 0. From then on
  \<open>take_next_stop\<close> and \<open>next_stop\<close> always return that cell in world coordinates:
  \<open>take_next_stop\<close> leaves the cursor at 0, \<open>next_stop\<close> leaves it at -1, and from
  either cursor both calls succeed again. No call is rejected.
\<close>

theorem same_cell_plan_single_stop:
  assumes "convert_to_grid_coord (p_map p) start = convert_to_grid_coord (p_map p) target"
  shows "(let c = convert_to_grid_coord (p_map p) start;
              p1 = p\<lparr>p_path := Some [c], p_path_idx := Some 0\<rparr>;
              w = convert_to_world_coord (p_map p) c
          in plan p start target = Some (Inr (p1, True))
             \<and> take_next_stop p1 = Inr (p1, w)
             \<and> next_stop p1 = Inr (p1\<lparr>p_path_idx := Some (- 1)\<rparr>, w)
             \<and> take_next_stop (p1\<lparr>p_path_idx := Some (- 1)\<rparr>) = Inr (p1, w)
             \<and> next_stop (p1\<lparr>p_path_idx := Some (- 1)\<rparr>) = Inr (p1\<lparr>p_path_idx := Some (- 1)\<rparr>, w))"
  using plan_same_cell [OF assms]
  by (simp add: Let_def single_next_stop single_take_next_stop)

theorem same_cell_plan_single_stop_witness:
  "convert_to_grid_coord (p_map demo_planner) (0, 0) = convert_to_grid_coord (p_map demo_planner) (1 / 2, 0)
   \<and> plan demo_planner (0, 0) (1 / 2, 0)
        = Some (Inr (demo_planner\<lparr>p_path := Some [(0, 0)], p_path_idx := Some 0\<rparr>, True))
   \<and> take_next_stop (demo_planner\<lparr>p_path := Some [(0, 0)], p_path_idx := Some 0\<rparr>)
        = Inr (demo_planner\<lparr>p_path := Some [(0, 0)], p_path_idx := Some 0\<rparr>, (0, 0))"
proof -
  have a: "convert_to_grid_coord (p_map demo_planner) (0, 0)
             = convert_to_grid_coord (p_map demo_planner) (1 / 2, 0)"
    by (simp add: demo_planner_def demo_grid_def)
  have c: "convert_to_grid_coord (p_map demo_planner) (0, 0) = (0, 0)"
          "convert_to_world_coord (p_map demo_planner) (0, 0) = (0, 0)"
    by (simp_all add: demo_planner_def demo_grid_def cell_pos_def)
  from same_cell_plan_single_stop [OF a] a show ?thesis
    by (simp add: Let_def c)
qed

text \<open>
  After \<open>plan((0,0), (0,0))\<close> three calls of \<open>take_next_stop\<close> in a row all return;
  none of them is rejected.
\<close>

theorem single_stop_never_rejected_counterexample:
  "plan demo_planner (0, 0) (0, 0)
     = Some (Inr (demo_planner\<lparr>p_path := Some [(0, 0)], p_path_idx := Some 0\<rparr>, True))
   \<and> run_calls (demo_planner\<lparr>p_path := Some [(0, 0)], p_path_idx := Some 0\<rparr>)
        [TakeNextStop, TakeNextStop, TakeNextStop]
        = Inr (demo_planner\<lparr>p_path := Some [(0, 0)], p_path_idx := Some 0\<rparr>)"
proof -
  have "plan demo_planner (0, 0) (0, 0)
     = Some (Inr (demo_planner\<lparr>p_path := Some [(0, 0)], p_path_idx := Some 0\<rparr>, True))"
    using plan_same_cell [of demo_planner "(0, 0)" "(0, 0)"]
    by (simp add: demo_planner_def demo_grid_def)
  then show ?thesis by (simp add: single_take_next_stop)
qed

lemma long_next_stop:
  assumes "p_path p = Some xs" "length xs \<noteq> 1" "next_stop p = Inr (p', w)"
  shows "p' = p"
  using assms by (simp add: next_stop_def split: sum.splits)

lemma long_take_next_stop:
  assumes "p_path p = Some xs" "length xs \<noteq> 1" "p_path_idx p = Some i" "0 \<le> i"
      and "take_next_stop p = Inr (p', w)"
  shows "p' = p\<lparr>p_path_idx := Some (i + 1)\<rparr> \<and> i + 1 < int (length xs)"
  using assms
  by (auto simp add: take_next_stop_def SearchBased_take_next_stop_def Planner_take_next_stop_def
        py_index_def norm_index_def split: sum.splits option.splits if_splits)

lemma run_calls_cursor:
  assumes "p_path p = Some xs" "length xs \<noteq> 1" "p_path_idx p = Some i" "0 \<le> i"
      and "run_calls p cs = Inr p'"
  shows "p' = p\<lparr>p_path_idx := Some (i + int (count_list cs TakeNextStop))\<rparr>
         \<and> (i < int (length xs) \<longrightarrow> i + int (count_list cs TakeNextStop) < int (length xs))"
  using assms
proof (induction cs arbitrary: p i)
  case Nil
  then show ?case by simp
next
  case (Cons c cs)
  show ?case
  proof (cases c)
    case NextStop
    with Cons.prems(5) obtain q w where q: "next_stop p = Inr (q, w)" "run_calls q cs = Inr p'"
      by (auto split: sum.splits)
    from long_next_stop [OF Cons.prems(1,2) q(1)] have "q = p" .
    with Cons.IH [OF Cons.prems(1,2,3,4)] q(2) NextStop show ?thesis by simp
  next
    case TakeNextStop
    with Cons.prems(5) obtain q w where q: "take_next_stop p = Inr (q, w)" "run_calls q cs = Inr p'"
      by (auto split: sum.splits)
    from long_take_next_stop [OF Cons.prems(1,2,3,4) q(1)]
    have qq: "q = p\<lparr>p_path_idx := Some (i + 1)\<rparr>" "i + 1 < int (length xs)" by simp_all
    have "p_path q = Some xs" "p_path_idx q = Some (i + 1)" "0 \<le> i + 1"
      using qq(1) Cons.prems(1,4) by simp_all
    from Cons.IH [OF this(1) Cons.prems(2) this(2,3) q(2)] qq TakeNextStop
    show ?thesis by (simp add: algebra_simps)
  qed
qed

lemma run_calls_append:
  "run_calls p (cs @ ds) = Inr p'' \<Longrightarrow> \<exists>p'. run_calls p cs = Inr p' \<and> run_calls p' ds = Inr p''"
proof (induction cs arbitrary: p)
  case Nil
  then show ?case by simp
next
  case (Cons c cs)
  then show ?case by (cases c) (auto split: sum.splits)
qed

text \<open>
  Claim C4, for a path of more than one cell. After a successful \<open>plan\<close> (cursor 0),
  in every sequence of calls of \<open>next_stop\<close> and \<open>take_next_stop\<close> that return, the
  cursor after any initial part of the sequence is the number of \<open>take_next_stop\<close>
  calls made so far: each of them adds exactly one, \<open>next_stop\<close> adds nothing, so the
  cursor never decreases; and it stays below the length of the path.
\<close>

theorem cursor_advances_on_long_path:
  assumes "p_path p = Some xs" "1 < length xs" "p_path_idx p = Some 0"
      and "run_calls p (cs @ ds) = Inr p''"
  shows "\<exists>p'. run_calls p cs = Inr p'
           \<and> p_path_idx p' = Some (int (count_list cs TakeNextStop))
           \<and> p_path_idx p'' = Some (int (count_list cs TakeNextStop) + int (count_list ds TakeNextStop))
           \<and> int (count_list cs TakeNextStop) + int (count_list ds TakeNextStop) < int (length xs)"
proof -
  from run_calls_append [OF assms(4)] obtain p' where p': "run_calls p cs = Inr p'" by blast
  have ne: "length xs \<noteq> 1" using assms(2) by simp
  from run_calls_cursor [OF assms(1) ne assms(3) _ p']
  have a: "p_path_idx p' = Some (int (count_list cs TakeNextStop))" by simp
  have "xs \<noteq> []" using assms(2) by auto
  with run_calls_cursor [OF assms(1) ne assms(3) _ assms(4)]
  have b: "p_path_idx p'' = Some (int (count_list cs TakeNextStop) + int (count_list ds TakeNextStop))"
          "int (count_list cs TakeNextStop) + int (count_list ds TakeNextStop) < int (length xs)"
    by simp_all
  from p' a b show ?thesis by blast
qed

theorem cursor_advances_on_long_path_witness:
  "run_calls (demo_planner\<lparr>p_path := Some [(0, 0), (0, 1), (0, 2)], p_path_idx := Some 0\<rparr>)
      ([NextStop, TakeNextStop] @ [NextStop, TakeNextStop])
     = Inr (demo_planner\<lparr>p_path := Some [(0, 0), (0, 1), (0, 2)], p_path_idx := Some 2\<rparr>)
   \<and> (\<exists>p'. run_calls (demo_planner\<lparr>p_path := Some [(0, 0), (0, 1), (0, 2)], p_path_idx := Some 0\<rparr>)
              [NextStop, TakeNextStop] = Inr p'
           \<and> p_path_idx p' = Some 1)"
proof -
  let ?p = "demo_planner\<lparr>p_path := Some [(0, 0), (0, 1), (0, 2)], p_path_idx := Some 0\<rparr>"
  have r: "run_calls ?p ([NextStop, TakeNextStop] @ [NextStop, TakeNextStop])
     = Inr (demo_planner\<lparr>p_path := Some [(0, 0), (0, 1), (0, 2)], p_path_idx := Some 2\<rparr>)"
    by (simp add: next_stop_def take_next_stop_def SearchBased_next_stop_def
          SearchBased_take_next_stop_def Planner_next_stop_def Planner_take_next_stop_def
          py_index_def norm_index_def)
  from cursor_advances_on_long_path [of ?p "[(0, 0), (0, 1), (0, 2)]", OF _ _ _ r] r
  show ?thesis by simp
qed

text \<open>
  On the one-cell path that \<open>plan((0,0), (0,0))\<close> stores, \<open>next_stop\<close> moves the
  cursor from 0 back to -1, and \<open>take_next_stop\<close> leaves it at 0 instead of adding one.
\<close>

theorem single_cell_cursor_regresses_counterexample:
  "plan demo_planner (0, 0) (0, 0)
     = Some (Inr (demo_planner\<lparr>p_path := Some [(0, 0)], p_path_idx := Some 0\<rparr>, True))
   \<and> next_stop (demo_planner\<lparr>p_path := Some [(0, 0)], p_path_idx := Some 0\<rparr>)
        = Inr (demo_planner\<lparr>p_path := Some [(0, 0)], p_path_idx := Some (- 1)\<rparr>, (0, 0))
   \<and> take_next_stop (demo_planner\<lparr>p_path := Some [(0, 0)], p_path_idx := Some 0\<rparr>)
        = Inr (demo_planner\<lparr>p_path := Some [(0, 0)], p_path_idx := Some 0\<rparr>, (0, 0))"
proof -
  have "plan demo_planner (0, 0) (0, 0)
     = Some (Inr (demo_planner\<lparr>p_path := Some [(0, 0)], p_path_idx := Some 0\<rparr>, True))"
    using plan_same_cell [of demo_planner "(0, 0)" "(0, 0)"]
    by (simp add: demo_planner_def demo_grid_def)
  moreover have "convert_to_world_coord (p_map demo_planner) (0, 0) = (0, 0)"
    by (simp add: demo_planner_def demo_grid_def cell_pos_def)
  ultimately show ?thesis by (simp add: single_next_stop single_take_next_stop)
qed

text \<open>
  Claim C1 does not hold of the code. With a path of two cells and the cursor at 0,
  \<open>path_valid\<close> returns false on a grid without a single positive cell, where no
  segment is obstructed, and true on a grid whose cells are all positive, where every
  segment is.
\<close>

theorem path_valid_rejects_clear_path:
  "path_valid demo_raytrace
      (demo_planner\<lparr>p_path := Some [(0, 0), (0, 1)], p_path_idx := Some 0, p_map := clear_grid\<rparr>) (0, 0)
     = Inr False
   \<and> (\<forall>c. \<not> occupancy clear_grid c > 0)
   \<and> path_valid demo_raytrace
      (demo_planner\<lparr>p_path := Some [(0, 0), (0, 1)], p_path_idx := Some 0, p_map := blocked_grid\<rparr>) (0, 0)
     = Inr True
   \<and> (\<forall>c. occupancy blocked_grid c > 0)"
  by (simp add: path_valid_def Planner_path_valid_def clear_grid_def blocked_grid_def demo_grid_def
        demo_raytrace_def py_index_def norm_index_def arr_get_def index2_def upto.simps)

section \<open>Optimality of the search\<close>

lemma index2_in_grid: "in_grid sh c \<Longrightarrow> index2 sh c = Some c"
  by (cases c) (simp add: in_grid_def index2_def norm_index_def)

lemma arr_get_in_grid: "in_grid sh c \<Longrightarrow> arr_get sh a c = Inr (a c)"
  by (simp add: arr_get_def index2_in_grid)

lemma arr_set_in_grid: "in_grid sh c \<Longrightarrow> arr_set sh a c v = Inr (a(c := v))"
  by (simp add: arr_set_def index2_in_grid)

lemma window_pos: "1 \<le> window n"
  by (simp add: window_def Let_def) presburger

lemma offsets_window: "n_grid_offsets n = [- window n .. window n]"
proof -
  define n2 where "n2 = (let n1 = (if n < 3 then 3 else n) in if n1 mod 2 = 0 then n1 + 1 else n1)"
  have odd: "n2 mod 2 = 1" unfolding n2_def Let_def by presburger
  have "(- (n2 - 1)) div 2 = - ((n2 - 1) div 2)" using odd by presburger
  then show ?thesis
    by (simp add: n_grid_offsets_def window_def n2_def Let_def)
qed

lemma arr_get_all_clear:
  assumes "\<forall>c \<in> set cs. index2 sh c \<noteq> None" "\<forall>c. \<not> a c"
  shows "\<exists>vals. arr_get_all sh a cs = Inr vals \<and> filter (\<lambda>v. v) vals = []"
  using assms(1)
proof (induction cs)
  case Nil
  then show ?case by simp
next
  case (Cons c cs)
  then obtain vals where "arr_get_all sh a cs = Inr vals" "filter (\<lambda>v. v) vals = []" by auto
  moreover from Cons.prems obtain c' where "index2 sh c = Some c'" by auto
  moreover have "\<not> a c'" using assms(2) by blast
  ultimately show ?case by (simp add: arr_get_def)
qed

lemma n_grid_candidate_clear:
  assumes "obstacle_free bm" "rt_in_range rt (bm_shape bm)" "in_grid (bm_shape bm) u"
  shows "n_grid_candidate rt bm u off = Inr (candidate (bm_shape bm) u off)"
proof (cases "off \<noteq> (0, 0) \<and> in_grid (bm_shape bm) (cell_add u off)")
  case True
  then have "\<forall>c \<in> set (rt u (cell_add u off)). index2 (bm_shape bm) c \<noteq> None"
    using assms(2,3) unfolding rt_in_range_def by blast
  from arr_get_all_clear [OF this, of "bm_obstacle bm"] assms(1)
  obtain vals where "arr_get_all (bm_shape bm) (bm_obstacle bm) (rt u (cell_add u off)) = Inr vals"
    "filter (\<lambda>v. v) vals = []" by (auto simp add: obstacle_free_def)
  then show ?thesis using True
    by (simp add: n_grid_candidate_def candidate_def Let_def in_grid_def prod_eq_iff)
next
  case False
  then show ?thesis
    by (auto simp add: n_grid_candidate_def candidate_def Let_def in_grid_def prod_eq_iff)
qed

lemma n_grid_loop_clear:
  assumes "obstacle_free bm" "rt_in_range rt (bm_shape bm)" "in_grid (bm_shape bm) u"
  shows "n_grid_loop rt bm u offs acc = Inr (acc @ concat (map (candidate (bm_shape bm) u) offs))"
  by (induction offs arbitrary: acc) (simp_all add: n_grid_candidate_clear [OF assms])

lemma in_concat_map: "x \<in> set (f y) \<Longrightarrow> y \<in> set ys \<Longrightarrow> x \<in> set (concat (map f ys))"
  by (induction ys) auto

lemma neighbors_clear:
  assumes "obstacle_free bm" "rt_in_range rt (bm_shape bm)" "in_grid (bm_shape bm) u"
  shows "\<exists>infos. get_n_grid_neighbors rt n bm u = Inr infos
           \<and> set infos = {(v, Finite (norm_cell (cell_sub v u))) | v. is_edge (bm_shape bm) (window n) u v}"
proof -
  let ?sh = "bm_shape bm"
  let ?offs = "[- window n .. window n]"
  let ?pairs = "concat (map (\<lambda>i. map (\<lambda>j. (i, j)) ?offs) ?offs)"
  let ?infos = "concat (map (candidate ?sh u) ?pairs)"
  have eq: "get_n_grid_neighbors rt n bm u = Inr ?infos"
    by (simp add: get_n_grid_neighbors_def offsets_window n_grid_loop_clear [OF assms])
  have pairs: "set ?pairs = {off. \<bar>fst off\<bar> \<le> window n \<and> \<bar>snd off\<bar> \<le> window n}"
  proof (intro set_eqI iffI)
    fix off assume "off \<in> set ?pairs"
    then show "off \<in> {off. \<bar>fst off\<bar> \<le> window n \<and> \<bar>snd off\<bar> \<le> window n}"
      by (auto simp add: abs_le_iff)
  next
    fix off :: cell assume "off \<in> {off. \<bar>fst off\<bar> \<le> window n \<and> \<bar>snd off\<bar> \<le> window n}"
    then have "fst off \<in> set ?offs" "snd off \<in> set ?offs" by (auto simp add: abs_le_iff)
    then have "\<exists>x\<in>set ?offs. \<exists>y\<in>set ?offs. off = (x, y)"
      by (intro bexI [of _ "fst off"] bexI [of _ "snd off"]) simp_all
    then show "off \<in> set ?pairs" by (simp add: image_iff)
  qed
  have "set ?infos = {(v, Finite (norm_cell (cell_sub v u))) | v. is_edge ?sh (window n) u v}"
  proof (intro set_eqI iffI)
    fix e assume "e \<in> set ?infos"
    then obtain off where off: "off \<in> set ?pairs" "e \<in> set (candidate ?sh u off)" by auto
    then have c: "off \<noteq> (0, 0)" "in_grid ?sh (cell_add u off)"
        "e = (cell_add u off, Finite (norm_cell off))"
      by (auto simp add: candidate_def split: if_splits)
    have "cell_sub (cell_add u off) u = off" by (simp add: cell_sub_def cell_add_def)
    moreover have "is_edge ?sh (window n) u (cell_add u off)"
      using c(1,2) off(1) assms(3) unfolding pairs
      by (auto simp add: is_edge_def cell_add_def prod_eq_iff)
    ultimately have "\<exists>v. e = (v, Finite (norm_cell (cell_sub v u))) \<and> is_edge ?sh (window n) u v"
      using c(3) by (intro exI [of _ "cell_add u off"]) simp
    then show "e \<in> {(v, Finite (norm_cell (cell_sub v u))) | v. is_edge ?sh (window n) u v}"
      by blast
  next
    fix e assume "e \<in> {(v, Finite (norm_cell (cell_sub v u))) | v. is_edge ?sh (window n) u v}"
    then obtain v where v: "e = (v, Finite (norm_cell (cell_sub v u)))" "is_edge ?sh (window n) u v"
      by auto
    let ?off = "cell_sub v u"
    have a: "cell_add u ?off = v" by (simp add: cell_sub_def cell_add_def)
    have "?off \<in> set ?pairs" unfolding pairs using v(2) by (simp add: is_edge_def cell_sub_def)
    moreover have "?off \<noteq> (0, 0)" using v(2) by (auto simp add: is_edge_def cell_sub_def prod_eq_iff)
    moreover have "in_grid ?sh (cell_add u ?off)" using v(2) a by (simp add: is_edge_def)
    ultimately have "e \<in> set (candidate ?sh u ?off)" "?off \<in> set ?pairs"
      using v(1) a by (simp_all add: candidate_def)
    then show "e \<in> set ?infos" by (rule in_concat_map)
  qed
  with eq show ?thesis by blast
qed

lemma cost_le_simps [simp]:
  "cost_le (Finite a) (Finite b) = (a \<le> b)"
  "cost_le x Infinite = True"
  "cost_le Infinite (Finite b) = False"
  by (cases x; simp add: cost_le_def not_less)+

lemma cost_le_refl [simp]: "cost_le a a"
  by (cases a) simp_all

lemma cost_le_trans: "cost_le a b \<Longrightarrow> cost_le b c \<Longrightarrow> cost_le a c"
  by (cases a; cases b; cases c) simp_all

lemma cost_gt_le_trans: "cost_gt a b \<Longrightarrow> cost_le a' a \<Longrightarrow> cost_gt a' b \<or> cost_le a' b"
  by (simp add: cost_le_def)

lemma cost_gt_mono: "cost_gt a' b \<Longrightarrow> cost_le a' a \<Longrightarrow> cost_gt a b"
  by (cases a; cases b; cases a') simp_all

lemma norm_cell_nonneg [simp]: "0 \<le> norm_cell c"
  by (simp add: norm_cell_def)

lemma norm_cell_pos: "c \<noteq> (0, 0) \<Longrightarrow> 0 < norm_cell c"
proof -
  assume "c \<noteq> (0, 0)"
  then have "fst c \<noteq> 0 \<or> snd c \<noteq> 0" by (simp add: prod_eq_iff)
  then have "0 < fst c * fst c + snd c * snd c"
    by (metis add_pos_nonneg add_nonneg_pos not_less_iff_gr_or_eq zero_le_square mult_eq_0_iff
          le_less)
  then have "0 < real_of_int (fst c * fst c + snd c * snd c)" by (simp only: of_int_0_less_iff)
  then show ?thesis by (simp only: norm_cell_def real_sqrt_gt_zero)
qed

lemma edge_cost_pos: "is_edge sh k u v \<Longrightarrow> 0 < norm_cell (cell_sub v u)"
  by (rule norm_cell_pos) (auto simp add: is_edge_def cell_sub_def prod_eq_iff)

lemma norm_cell_sym: "norm_cell (cell_sub u v) = norm_cell (cell_sub v u)"
proof -
  have "(fst u - fst v) * (fst u - fst v) = (fst v - fst u) * (fst v - fst u)"
       "(snd u - snd v) * (snd u - snd v) = (snd v - snd u) * (snd v - snd u)"
    by (simp_all add: algebra_simps)
  then show ?thesis by (simp add: norm_cell_def cell_sub_def)
qed

lemma rcost_nonneg [simp]: "0 \<le> rcost xs"
  by (induction xs rule: rcost.induct) simp_all

lemma rcost_tl_le: "rcost xs \<le> rcost (v # xs)"
  by (cases xs) simp_all

lemma good_mono:
  assumes "good sh k st g xs" "\<And>w. cost_le (g' w) (g w)"
  shows "good sh k st g' xs"
  using assms(1)
proof (induction xs rule: induct_list012)
  case 1
  then show ?case by simp
next
  case (2 v)
  then show ?case using cost_le_trans [OF assms(2) [of v]] by auto
next
  case (3 v u rest)
  then show ?case using cost_le_trans [OF assms(2) [of v]] by auto
qed

lemma good_elem:
  "good sh k st g xs \<Longrightarrow> w \<in> set xs \<Longrightarrow> cost_le (g w) (Finite (rcost xs))"
proof (induction xs rule: induct_list012)
  case 1
  then show ?case by simp
next
  case (2 v)
  then show ?case by auto
next
  case (3 v u rest)
  show ?case
  proof (cases "w = v")
    case True
    then show ?thesis using 3 by simp
  next
    case False
    then have "cost_le (g w) (Finite (rcost (u # rest)))" using 3 by simp
    moreover have "cost_le (Finite (rcost (u # rest))) (Finite (rcost (v # u # rest)))" by simp
    ultimately show ?thesis by (rule cost_le_trans)
  qed
qed

lemma good_simple: "good sh k st g xs \<Longrightarrow> simple_rwalk sh k st xs"
  by (induction xs rule: induct_list012) simp_all

lemma good_hd_in_grid: "good sh k st g (v # rest) \<Longrightarrow> in_grid sh v"
  by (cases rest) (auto simp add: is_edge_def)

lemma simple_rwalk_props:
  "simple_rwalk sh k st xs \<Longrightarrow> distinct xs \<and> (\<forall>w \<in> set xs. in_grid sh w)"
proof (induction xs rule: induct_list012)
  case 1
  then show ?case by simp
next
  case (2 v)
  then show ?case by auto
next
  case (3 v u rest)
  then have "in_grid sh v" by (simp add: is_edge_def)
  with 3 show ?case by auto
qed

lemma finite_grid: "finite {c. in_grid sh c}"
proof -
  have "{c. in_grid sh c} \<subseteq> {0 ..< int (fst sh)} \<times> {0 ..< int (snd sh)}"
    by (auto simp add: in_grid_def)
  then show ?thesis by (rule finite_subset) simp
qed

lemma finite_simple: "finite {xs. simple_rwalk sh k st xs}"
proof -
  let ?G = "{c. in_grid sh c}"
  have "{xs. simple_rwalk sh k st xs} \<subseteq> {xs. set xs \<subseteq> ?G \<and> length xs \<le> card ?G}"
  proof
    fix xs assume "xs \<in> {xs. simple_rwalk sh k st xs}"
    then have "simple_rwalk sh k st xs" by simp
    from simple_rwalk_props [OF this] have d: "distinct xs" "set xs \<subseteq> ?G" by blast+
    then have "length xs = card (set xs)" by (simp add: distinct_card)
    also have "\<dots> \<le> card ?G" using d(2) finite_grid by (simp add: card_mono)
    finally show "xs \<in> {xs. set xs \<subseteq> ?G \<and> length xs \<le> card ?G}" using d(2) by simp
  qed
  then show ?thesis using finite_lists_length_le [OF finite_grid] by (rule finite_subset)
qed

lemma finite_MS: "finite (MS sh k st g)"
  by (rule finite_subset [OF _ finite_simple [of sh k st]]) (auto simp add: MS_def)

lemma MS_mono: "(\<And>w. cost_le (g' w) (g w)) \<Longrightarrow> MS sh k st g' \<subseteq> MS sh k st g"
proof
  fix xs assume a: "\<And>w. cost_le (g' w) (g w)" "xs \<in> MS sh k st g'"
  then have "cost_gt (g' (hd xs)) (Finite (rcost xs))" by (simp add: MS_def)
  from cost_gt_mono [OF this a(1)] a(2) show "xs \<in> MS sh k st g" by (simp add: MS_def)
qed

lemma relax_child_eq:
  assumes "in_grid sh u0" "in_grid sh v" "g_arr s u0 = Finite y"
  shows "relax_child sh 1 h t u0 s (v, Finite c) =
           Inr (if cost_gt (g_arr s v) (Finite (y + c)) then relaxed h t u0 s v (y + c) else s)"
  using assms by (simp add: relax_child_def arr_get_in_grid arr_set_in_grid relaxed_def)

lemma pq_set_map_fst: "k \<in> fst ` set q \<Longrightarrow> map fst (pq_set q k v) = map fst q"
  by (induction q) (auto simp add: pq_set_def)

lemma pq_set_keys: "fst ` set (pq_set q k v) = insert k (fst ` set q)"
proof (cases "k \<in> fst ` set q")
  case True
  have "fst ` set (pq_set q k v) = set (map fst (pq_set q k v))" by simp
  also have "\<dots> = fst ` set q" unfolding pq_set_map_fst [OF True] by simp
  finally show ?thesis using True by auto
next
  case False
  then show ?thesis by (simp add: pq_set_def)
qed

lemma pq_set_distinct: "distinct (map fst q) \<Longrightarrow> distinct (map fst (pq_set q k v))"
proof (cases "k \<in> fst ` set q")
  case True
  assume "distinct (map fst q)"
  then show ?thesis using pq_set_map_fst [OF True] by simp
next
  case False
  assume "distinct (map fst q)"
  then show ?thesis using False by (simp add: pq_set_def)
qed

lemma pq_set_entry: "e \<in> set (pq_set q k v) \<Longrightarrow> e = (k, v) \<or> (e \<in> set q \<and> fst e \<noteq> k)"
  by (auto simp add: pq_set_def split: if_splits)

lemma inv_J_nonneg: "inv_J sh k st g \<Longrightarrow> g v = Finite x \<Longrightarrow> 0 \<le> x"
  unfolding inv_J_def using rcost_nonneg by blast

lemma inv_J_in_grid: "inv_J sh k st g \<Longrightarrow> g v = Finite x \<Longrightarrow> in_grid sh v"
  unfolding inv_J_def using good_hd_in_grid by blast

lemma fired_le: "cost_gt (g v) (Finite x) \<Longrightarrow> cost_le ((g(v := Finite x)) w) (g w)"
  by (cases "g v") simp_all

lemma fired_witness:
  assumes "inv_J sh k st g" "g u0 = Finite y" "is_edge sh k u0 v"
      and "cost_gt (g v) (Finite (y + norm_cell (cell_sub v u0)))"
  shows "\<exists>rest. good sh k st (g(v := Finite (y + norm_cell (cell_sub v u0)))) (v # u0 # rest)
           \<and> rcost (v # u0 # rest) = y + norm_cell (cell_sub v u0)"
proof -
  let ?c = "norm_cell (cell_sub v u0)"
  let ?g' = "g(v := Finite (y + ?c))"
  from assms(1,2) obtain rest where r: "good sh k st g (u0 # rest)" "rcost (u0 # rest) = y"
    unfolding inv_J_def by blast
  have le: "\<And>w. cost_le (?g' w) (g w)" by (rule fired_le) (rule assms(4))
  have notin: "v \<notin> set (u0 # rest)"
  proof
    assume "v \<in> set (u0 # rest)"
    from good_elem [OF r(1) this] have "cost_le (g v) (Finite y)" using r(2) by simp
    moreover have "cost_le (Finite y) (Finite (y + ?c))" by simp
    ultimately have "cost_le (g v) (Finite (y + ?c))" by (rule cost_le_trans)
    with assms(4) show False by (simp add: cost_le_def)
  qed
  have "good sh k st ?g' (u0 # rest)" using good_mono [OF r(1) le] .
  then have "good sh k st ?g' (v # u0 # rest)"
    using assms(3) notin r(2) by simp
  moreover have "rcost (v # u0 # rest) = y + ?c" using r(2) by simp
  ultimately show ?thesis by blast
qed

lemma fired_J:
  assumes "inv_J sh k st g" "g u0 = Finite y" "is_edge sh k u0 v"
      and "cost_gt (g v) (Finite (y + norm_cell (cell_sub v u0)))"
  shows "inv_J sh k st (g(v := Finite (y + norm_cell (cell_sub v u0))))"
  unfolding inv_J_def
proof (intro allI impI)
  let ?c = "norm_cell (cell_sub v u0)"
  let ?g' = "g(v := Finite (y + ?c))"
  fix w x assume w: "?g' w = Finite x"
  have le: "\<And>w. cost_le (?g' w) (g w)" by (rule fired_le) (rule assms(4))
  show "\<exists>rest. good sh k st ?g' (w # rest) \<and> rcost (w # rest) = x"
  proof (cases "w = v")
    case True
    then have "x = y + ?c" using w by simp
    with fired_witness [OF assms] True show ?thesis by blast
  next
    case False
    then have "g w = Finite x" using w by simp
    with assms(1) obtain rest where "good sh k st g (w # rest)" "rcost (w # rest) = x"
      unfolding inv_J_def by blast
    with good_mono [OF this(1) le] show ?thesis by blast
  qed
qed

lemma fired_MS:
  assumes "inv_J sh k st g" "g u0 = Finite y" "is_edge sh k u0 v"
      and "cost_gt (g v) (Finite (y + norm_cell (cell_sub v u0)))"
  shows "MS sh k st (g(v := Finite (y + norm_cell (cell_sub v u0)))) \<subset> MS sh k st g"
proof -
  let ?c = "norm_cell (cell_sub v u0)"
  let ?g' = "g(v := Finite (y + ?c))"
  have le: "\<And>w. cost_le (?g' w) (g w)" by (rule fired_le) (rule assms(4))
  from fired_witness [OF assms] obtain rest where
    r: "good sh k st ?g' (v # u0 # rest)" "rcost (v # u0 # rest) = y + ?c" by blast
  have sw: "simple_rwalk sh k st (v # u0 # rest)" using good_simple [OF r(1)] .
  have "v # u0 # rest \<in> MS sh k st g"
    unfolding MS_def r(2) mem_Collect_eq list.sel using sw assms(4) by simp
  moreover have "v # u0 # rest \<notin> MS sh k st ?g'"
    unfolding MS_def r(2) mem_Collect_eq list.sel by simp
  ultimately show ?thesis using MS_mono [of ?g' g sh k st, OF le] by blast
qed

lemma fired_not_start:
  assumes "inv_start sh st s" "inv_J sh k st (g_arr s)" "g_arr s u0 = Finite y"
      and "cost_gt (g_arr s v) (Finite (y + norm_cell (cell_sub v u0)))"
  shows "v \<noteq> st"
proof
  assume "v = st"
  then have "g_arr s v = Finite 0" using assms(1) by (simp add: inv_start_def)
  moreover have "0 \<le> y" using inv_J_nonneg [OF assms(2,3)] .
  ultimately show False using assms(4) norm_cell_nonneg [of "cell_sub v u0"] by simp
qed

lemma relaxed_sel [simp]:
  "g_arr (relaxed h t u0 s v x) = (g_arr s)(v := Finite x)"
  "pred_arr (relaxed h t u0 s v x) = (pred_arr s)(v := u0)"
  "OPEN (relaxed h t u0 s v x) = pq_set (OPEN s) v (Finite (x + h (cell_sub v t)))"
  by (simp_all add: relaxed_def)

lemma fired_start:
  assumes "inv_start sh st s" "v \<noteq> st"
  shows "inv_start sh st (relaxed h t u0 s v x)"
  using assms by (simp add: inv_start_def)

lemma fired_open:
  assumes "inv_open sh t h s" "in_grid sh v"
  shows "inv_open sh t h (relaxed h t u0 s v x)"
  unfolding inv_open_def
proof (rule conjI [OF _ ballI])
  show "distinct (map fst (OPEN (relaxed h t u0 s v x)))"
    using assms(1) by (simp add: inv_open_def pq_set_distinct)
next
  fix e assume "e \<in> set (OPEN (relaxed h t u0 s v x))"
  then have "e = (v, Finite (x + h (cell_sub v t))) \<or> (e \<in> set (OPEN s) \<and> fst e \<noteq> v)"
    using pq_set_entry by simp
  then show "in_grid sh (fst e) \<and>
     (\<exists>x'. g_arr (relaxed h t u0 s v x) (fst e) = Finite x' \<and> snd e = Finite (x' + h (cell_sub (fst e) t)))"
  proof
    assume "e = (v, Finite (x + h (cell_sub v t)))"
    then show ?thesis using assms(2) by simp
  next
    assume "e \<in> set (OPEN s) \<and> fst e \<noteq> v"
    then show ?thesis using assms(1) by (simp add: inv_open_def)
  qed
qed

lemma fired_target:
  assumes "inv_target t s"
  shows "inv_target t (relaxed h t u0 s v x)"
  using assms by (auto simp add: inv_target_def pq_set_keys)

lemma fired_pred:
  assumes "inv_pred sh k st s" "g_arr s u0 = Finite y" "is_edge sh k u0 v"
      and "cost_gt (g_arr s v) (Finite (y + norm_cell (cell_sub v u0)))"
  shows "inv_pred sh k st (relaxed h t u0 s v (y + norm_cell (cell_sub v u0)))"
  unfolding inv_pred_def
proof (intro allI impI)
  let ?c = "norm_cell (cell_sub v u0)"
  let ?s' = "relaxed h t u0 s v (y + ?c)"
  fix w x assume w: "g_arr ?s' w = Finite x" "w \<noteq> st"
  have ne: "u0 \<noteq> v" using assms(3) by (simp add: is_edge_def)
  show "is_edge sh k (pred_arr ?s' w) w
        \<and> (\<exists>y'. g_arr ?s' (pred_arr ?s' w) = Finite y'
                \<and> y' + norm_cell (cell_sub w (pred_arr ?s' w)) \<le> x)"
  proof (cases "w = v")
    case True
    then have "x = y + ?c" using w(1) by simp
    then show ?thesis using True assms(2,3) ne by simp
  next
    case False
    then have gw: "g_arr s w = Finite x" using w(1) by simp
    let ?pw = "pred_arr s w"
    from assms(1) gw w(2) obtain yw where
      pw: "is_edge sh k ?pw w" "g_arr s ?pw = Finite yw" "yw + norm_cell (cell_sub w ?pw) \<le> x"
      unfolding inv_pred_def by blast
    show ?thesis
    proof (cases "?pw = v")
      case True
      then have "y + ?c < yw" using assms(4) pw(2) by simp
      then have "(y + ?c) + norm_cell (cell_sub w v) \<le> x" using pw(3) True by simp
      then show ?thesis using False True pw(1) by simp
    next
      case pv: False
      then show ?thesis using False pw by simp
    qed
  qed
qed

lemma fired_settled:
  assumes "Settled sh k t s X" "cost_gt (g_arr s v) (Finite x)"
  shows "Settled sh k t (relaxed h t u0 s v x) X"
  unfolding Settled_def
proof (intro allI impI)
  let ?s' = "relaxed h t u0 s v x"
  fix u y w
  assume a: "g_arr ?s' u = Finite y" "u \<notin> fst ` set (OPEN ?s')" "u \<noteq> t" "u \<notin> X"
            "is_edge sh k u w"
  from a(2) have uv: "u \<noteq> v" "u \<notin> fst ` set (OPEN s)" by (simp_all add: pq_set_keys)
  then have "g_arr s u = Finite y" using a(1) by simp
  with assms(1) uv(2) a(3,4,5)
  have "cost_le (g_arr s w) (Finite (y + norm_cell (cell_sub w u)))"
    unfolding Settled_def by blast
  moreover have "cost_le (g_arr ?s' w) (g_arr s w)"
    unfolding relaxed_sel by (rule fired_le) (rule assms(2))
  ultimately show "cost_le (g_arr ?s' w) (Finite (y + norm_cell (cell_sub w u)))"
    using cost_le_trans by blast
qed

lemma relax_child_step:
  assumes "Inv0 sh k st t h s" "Settled sh k t s X" "g_arr s u0 = Finite y" "is_edge sh k u0 v"
  shows "\<exists>s'. relax_child sh 1 h t u0 s (v, Finite (norm_cell (cell_sub v u0))) = Inr s'
            \<and> Inv0 sh k st t h s' \<and> Settled sh k t s' X
            \<and> g_arr s' u0 = Finite y
            \<and> (\<forall>w. cost_le (g_arr s' w) (g_arr s w))
            \<and> cost_le (g_arr s' v) (Finite (y + norm_cell (cell_sub v u0)))
            \<and> (MS sh k st (g_arr s') \<subset> MS sh k st (g_arr s) \<or> s' = s)"
proof -
  let ?c = "norm_cell (cell_sub v u0)"
  let ?s' = "relaxed h t u0 s v (y + ?c)"
  have grid: "in_grid sh u0" "in_grid sh v" "u0 \<noteq> v" using assms(4) by (simp_all add: is_edge_def)
  note eq = relax_child_eq [OF grid(1,2) assms(3), of h t ?c]
  from assms(1) have I: "inv_start sh st s" "inv_open sh t h s" "inv_J sh k st (g_arr s)"
      "inv_pred sh k st s" "inv_target t s" by (simp_all add: Inv0_def)
  show ?thesis
  proof (cases "cost_gt (g_arr s v) (Finite (y + ?c))")
    case True
    have vs: "v \<noteq> st" using fired_not_start [OF I(1,3) assms(3) True] .
    have "Inv0 sh k st t h ?s'"
      unfolding Inv0_def
      using fired_start [OF I(1) vs] fired_open [OF I(2) grid(2)]
            fired_J [OF I(3) assms(3,4) True] fired_pred [OF I(4) assms(3,4) True]
            fired_target [OF I(5)]
      by simp
    moreover have "Settled sh k t ?s' X" using fired_settled [OF assms(2) True] .
    moreover have "g_arr ?s' u0 = Finite y" using grid(3) assms(3) by simp
    moreover have "\<forall>w. cost_le (g_arr ?s' w) (g_arr s w)"
      unfolding relaxed_sel using fired_le [of "g_arr s" v "y + ?c"] True by blast
    moreover have "cost_le (g_arr ?s' v) (Finite (y + ?c))" by simp
    moreover have "MS sh k st (g_arr ?s') \<subset> MS sh k st (g_arr s)"
      unfolding relaxed_sel using fired_MS [OF I(3) assms(3,4) True] .
    ultimately show ?thesis using eq True by simp
  next
    case False
    then have "cost_le (g_arr s v) (Finite (y + ?c))" by (simp add: cost_le_def)
    then show ?thesis using eq False assms(1,2,3) by simp
  qed
qed

lemma relax_children_step:
  assumes "Inv0 sh k st t h s" "Settled sh k t s X" "g_arr s u0 = Finite y"
      and "\<forall>e \<in> set cs. is_edge sh k u0 (fst e) \<and> snd e = Finite (norm_cell (cell_sub (fst e) u0))"
  shows "\<exists>s'. relax_children sh 1 h t u0 s cs = Inr s'
            \<and> Inv0 sh k st t h s' \<and> Settled sh k t s' X
            \<and> g_arr s' u0 = Finite y
            \<and> (\<forall>w. cost_le (g_arr s' w) (g_arr s w))
            \<and> (\<forall>e \<in> set cs. cost_le (g_arr s' (fst e)) (Finite (y + norm_cell (cell_sub (fst e) u0))))
            \<and> (MS sh k st (g_arr s') \<subset> MS sh k st (g_arr s) \<or> s' = s)"
  using assms
proof (induction cs arbitrary: s)
  case Nil
  then show ?case by simp
next
  case (Cons child cs)
  obtain v where child: "child = (v, Finite (norm_cell (cell_sub v u0)))" and e: "is_edge sh k u0 v"
    using Cons.prems(4) by (cases child) auto
  from relax_child_step [OF Cons.prems(1,2,3) e] obtain s1 where
    s1: "relax_child sh 1 h t u0 s (v, Finite (norm_cell (cell_sub v u0))) = Inr s1"
        "Inv0 sh k st t h s1" "Settled sh k t s1 X" "g_arr s1 u0 = Finite y"
        "\<forall>w. cost_le (g_arr s1 w) (g_arr s w)"
        "cost_le (g_arr s1 v) (Finite (y + norm_cell (cell_sub v u0)))"
        "MS sh k st (g_arr s1) \<subset> MS sh k st (g_arr s) \<or> s1 = s"
    by blast
  have rest: "\<forall>e \<in> set cs. is_edge sh k u0 (fst e) \<and> snd e = Finite (norm_cell (cell_sub (fst e) u0))"
    using Cons.prems(4) by simp
  from Cons.IH [OF s1(2,3,4) rest] obtain s' where
    s': "relax_children sh 1 h t u0 s1 cs = Inr s'"
        "Inv0 sh k st t h s'" "Settled sh k t s' X" "g_arr s' u0 = Finite y"
        "\<forall>w. cost_le (g_arr s' w) (g_arr s1 w)"
        "\<forall>e \<in> set cs. cost_le (g_arr s' (fst e)) (Finite (y + norm_cell (cell_sub (fst e) u0)))"
        "MS sh k st (g_arr s') \<subset> MS sh k st (g_arr s1) \<or> s' = s1"
    by blast
  have a: "relax_children sh 1 h t u0 s (child # cs) = Inr s'"
    using s1(1) s'(1) child by simp
  have b: "\<forall>w. cost_le (g_arr s' w) (g_arr s w)"
    using s1(5) s'(5) cost_le_trans by blast
  have "cost_le (g_arr s' v) (Finite (y + norm_cell (cell_sub v u0)))"
    using s'(5) s1(6) cost_le_trans by blast
  then have c: "\<forall>e \<in> set (child # cs).
        cost_le (g_arr s' (fst e)) (Finite (y + norm_cell (cell_sub (fst e) u0)))"
    using s'(6) child by simp
  have d: "MS sh k st (g_arr s') \<subset> MS sh k st (g_arr s) \<or> s' = s"
    using s1(7) s'(7) by auto
  from a s'(2,3,4) b c d show ?case by blast
qed

lemma cost_gt_asym: "cost_gt a b \<Longrightarrow> cost_le b a"
  by (cases a; cases b) simp_all

lemma pq_top_None: "(pq_top q = None) = (q = [])"
  by (cases q) (auto split: option.splits)

lemma pq_top_min:
  "pq_top q = Some m \<Longrightarrow> m \<in> set q \<and> (\<forall>e \<in> set q. cost_le (snd m) (snd e))"
proof (induction q arbitrary: m)
  case Nil
  then show ?case by simp
next
  case (Cons e q)
  show ?case
  proof (cases "pq_top q")
    case None
    then have "q = []" by (simp add: pq_top_None)
    with Cons.prems show ?thesis by simp
  next
    case (Some m')
    from Cons.IH [OF Some] have ih: "m' \<in> set q" "\<forall>e \<in> set q. cost_le (snd m') (snd e)" by simp_all
    show ?thesis
    proof (cases "cost_gt (snd e) (snd m')")
      case True
      then have "m = m'" using Cons.prems Some by simp
      then show ?thesis using ih cost_gt_asym [OF True] by simp
    next
      case False
      then have "m = e" using Cons.prems Some by simp
      moreover have "cost_le (snd e) (snd m')" using False by (simp add: cost_le_def)
      ultimately show ?thesis using ih(2) cost_le_trans by auto
    qed
  qed
qed

lemma popitem_None: "(popitem q = None) = (q = [])"
proof (cases "pq_top q")
  case None
  then show ?thesis using pq_top_None [of q] by (simp add: popitem_def)
next
  case (Some m)
  then have "q \<noteq> []" by auto
  then show ?thesis using Some by (simp add: popitem_def)
qed

lemma popitem_Some:
  assumes "popitem q = Some (m, q')"
  shows "m \<in> set q" "\<forall>e \<in> set q. cost_le (snd m) (snd e)" "q' = filter (\<lambda>e. fst e \<noteq> fst m) q"
        "length q' < length q"
proof -
  from assms have t: "pq_top q = Some m" and q': "q' = filter (\<lambda>e. fst e \<noteq> fst m) q"
    by (auto simp add: popitem_def split: option.splits)
  from pq_top_min [OF t] show m: "m \<in> set q" and "\<forall>e \<in> set q. cost_le (snd m) (snd e)" by simp_all
  show "q' = filter (\<lambda>e. fst e \<noteq> fst m) q" by (rule q')
  show "length q' < length q" unfolding q' using m by (intro length_filter_less [of m]) simp_all
qed

lemma pop_Inv0:
  assumes "Inv0 sh k st t h s" "u0 \<noteq> t"
  shows "Inv0 sh k st t h (s\<lparr>OPEN := filter (\<lambda>e. fst e \<noteq> u0) (OPEN s)\<rparr>)"
proof -
  from assms(1) have I: "inv_start sh st s" "inv_open sh t h s" "inv_J sh k st (g_arr s)"
      "inv_pred sh k st s" "inv_target t s" by (simp_all add: Inv0_def)
  let ?s' = "s\<lparr>OPEN := filter (\<lambda>e. fst e \<noteq> u0) (OPEN s)\<rparr>"
  have "inv_start sh st ?s'" using I(1) by (simp add: inv_start_def)
  moreover have "inv_open sh t h ?s'" using I(2) by (simp add: inv_open_def distinct_map_filter)
  moreover have "inv_J sh k st (g_arr ?s')" using I(3) by simp
  moreover have "inv_pred sh k st ?s'" using I(4) by (simp add: inv_pred_def)
  moreover have "inv_target t ?s'" using I(5) assms(2) by (force simp add: inv_target_def)
  ultimately show ?thesis by (simp add: Inv0_def)
qed

lemma pop_Settled:
  assumes "Settled sh k t s {}"
  shows "Settled sh k t (s\<lparr>OPEN := filter (\<lambda>e. fst e \<noteq> u0) (OPEN s)\<rparr>) {u0}"
  unfolding Settled_def
proof (intro allI impI)
  let ?s' = "s\<lparr>OPEN := filter (\<lambda>e. fst e \<noteq> u0) (OPEN s)\<rparr>"
  fix u y v
  assume a: "g_arr ?s' u = Finite y" "u \<notin> fst ` set (OPEN ?s')" "u \<noteq> t" "u \<notin> {u0}" "is_edge sh k u v"
  from a(2,4) have "u \<notin> fst ` set (OPEN s)" by force
  moreover have "g_arr s u = Finite y" using a(1) by simp
  ultimately have "cost_le (g_arr s v) (Finite (y + norm_cell (cell_sub v u)))"
    using assms a(3,5) unfolding Settled_def by blast
  then show "cost_le (g_arr ?s' v) (Finite (y + norm_cell (cell_sub v u)))" by simp
qed

lemma path_cost_nonneg [simp]: "0 \<le> path_cost xs"
  by (induction xs rule: path_cost.induct) simp_all

lemma walk_bound:
  assumes "Inv0 sh k st t h s" "Settled sh k t s {}" "admissible sh k h t"
  shows "is_walk (is_edge sh k) (u # zs) \<Longrightarrow> last (u # zs) = t \<Longrightarrow> in_grid sh u \<Longrightarrow>
         g_arr s u = Finite y \<Longrightarrow> y \<le> b \<Longrightarrow>
         cost_le (g_arr s t) (Finite (b + path_cost (u # zs)))
         \<or> (\<exists>e \<in> set (OPEN s). cost_le (snd e) (Finite (b + path_cost (u # zs))))"
proof (induction zs arbitrary: u y b)
  case Nil
  then show ?case by simp
next
  case (Cons v zs)
  let ?c = "norm_cell (cell_sub v u)"
  have pc: "path_cost (u # v # zs) = ?c + path_cost (v # zs)" by simp
  have e: "is_edge sh k u v" and w: "is_walk (is_edge sh k) (v # zs)" and l: "last (v # zs) = t"
    using Cons.prems(1,2) by simp_all
  show ?case
  proof (cases "u = t")
    case True
    have "y \<le> b + path_cost (u # v # zs)"
      using Cons.prems(5) path_cost_nonneg [of "u # v # zs"] by linarith
    then show ?thesis using True Cons.prems(4) by simp
  next
    case ut: False
    show ?thesis
    proof (cases "u \<in> fst ` set (OPEN s)")
      case True
      then obtain e where e1: "e \<in> set (OPEN s)" "fst e = u" by auto
      from assms(1) have "inv_open sh t h s" by (simp add: Inv0_def)
      with e1 Cons.prems(4) have se: "snd e = Finite (y + h (cell_sub u t))"
        by (auto simp add: inv_open_def)
      have "grid_path sh k u t (u # v # zs)"
        using Cons.prems(1,2,3) by (simp add: grid_path_def)
      with assms(3) have "h (cell_sub u t) \<le> path_cost (u # v # zs)"
        unfolding admissible_def by blast
      then have "cost_le (snd e) (Finite (b + path_cost (u # v # zs)))"
        using se Cons.prems(5) by simp
      with e1(1) show ?thesis by blast
    next
      case False
      with assms(2) Cons.prems(4) ut e
      have "cost_le (g_arr s v) (Finite (y + ?c))" unfolding Settled_def by blast
      then obtain y' where y': "g_arr s v = Finite y'" "y' \<le> y + ?c"
        by (cases "g_arr s v") simp_all
      have gv: "in_grid sh v" using e by (simp add: is_edge_def)
      have "y' \<le> b + ?c" using y'(2) Cons.prems(5) by simp
      from Cons.IH [OF w l gv y'(1) this] show ?thesis by (simp add: pc add.assoc)
    qed
  qed
qed

lemma start_bound:
  assumes "Inv0 sh k st t h s" "Settled sh k t s {}" "admissible sh k h t" "grid_path sh k st t ys"
  shows "cost_le (g_arr s t) (Finite (path_cost ys))
         \<or> (\<exists>e \<in> set (OPEN s). cost_le (snd e) (Finite (path_cost ys)))"
proof -
  from assms(4) obtain zs where ys: "ys = st # zs" by (cases ys) (auto simp add: grid_path_def)
  from assms(4) have a: "is_walk (is_edge sh k) (st # zs)" "last (st # zs) = t" "in_grid sh st"
    unfolding ys by (simp_all add: grid_path_def)
  from assms(1) have "g_arr s st = Finite 0" by (simp add: Inv0_def inv_start_def)
  from walk_bound [OF assms(1,2,3) a this, of 0] show ?thesis unfolding ys by simp
qed

lemma open_nonempty:
  assumes "Inv0 sh k st t h s" "Settled sh k t s {}" "admissible sh k h t" "grid_path sh k st t ys"
  shows "OPEN s \<noteq> []"
proof
  assume emp: "OPEN s = []"
  with start_bound [OF assms] have "cost_le (g_arr s t) (Finite (path_cost ys))" by simp
  moreover from assms(1) emp have "g_arr s t = Infinite" by (simp add: Inv0_def inv_target_def)
  ultimately show False by simp
qed

lemma target_popped:
  assumes "Inv0 sh k st t h s" "Settled sh k t s {}" "admissible sh k h t"
      and "popitem (OPEN s) = Some (m, q')" "fst m = t"
  shows "search_post sh k st t (s\<lparr>OPEN := q'\<rparr>)"
proof -
  from assms(1) have I: "inv_start sh st s" "inv_open sh t h s" "inv_J sh k st (g_arr s)"
      "inv_pred sh k st s" by (simp_all add: Inv0_def)
  note pop = popitem_Some [OF assms(4)]
  from I(2) pop(1) assms(5) obtain x where
    x: "g_arr s t = Finite x" "snd m = Finite (x + h (cell_sub t t))"
    by (auto simp add: inv_open_def)
  have "\<forall>ys. grid_path sh k st t ys \<longrightarrow> x \<le> path_cost ys"
  proof (intro allI impI)
    fix ys assume gp: "grid_path sh k st t ys"
    from start_bound [OF assms(1,2,3) gp] show "x \<le> path_cost ys"
    proof
      assume "cost_le (g_arr s t) (Finite (path_cost ys))"
      then show ?thesis using x(1) by simp
    next
      assume "\<exists>e \<in> set (OPEN s). cost_le (snd e) (Finite (path_cost ys))"
      then obtain e where e: "e \<in> set (OPEN s)" "cost_le (snd e) (Finite (path_cost ys))" by blast
      from pop(2) e(1) have "cost_le (snd m) (snd e)" by blast
      from cost_le_trans [OF this e(2)] have "cost_le (snd m) (Finite (path_cost ys))" .
      then have "x + h (cell_sub t t) \<le> path_cost ys" using x(2) by simp
      moreover have "0 \<le> h (cell_sub t t)" using assms(3) by (simp add: admissible_def)
      ultimately show ?thesis by linarith
    qed
  qed
  with x(1) I show ?thesis
    by (simp add: search_post_def inv_start_def inv_pred_def)
qed

lemma expand_step:
  assumes "Inv0 sh k st t h s" "Settled sh k t s {}" "nf_edges nf sh k"
      and "popitem (OPEN s) = Some (m, q')" "fst m \<noteq> t"
  shows "\<exists>infos s'. nf (fst m) = Inr infos
           \<and> relax_children sh 1 h t (fst m) (s\<lparr>OPEN := q'\<rparr>) infos = Inr s'
           \<and> Inv0 sh k st t h s' \<and> Settled sh k t s' {}
           \<and> (s', s) \<in> measures [\<lambda>s. card (MS sh k st (g_arr s)), \<lambda>s. length (OPEN s)]"
proof -
  let ?u0 = "fst m"
  let ?sp = "s\<lparr>OPEN := q'\<rparr>"
  note pop = popitem_Some [OF assms(4)]
  from assms(1) have io: "inv_open sh t h s" by (simp add: Inv0_def)
  with pop(1) obtain y where y: "in_grid sh ?u0" "g_arr s ?u0 = Finite y"
    by (auto simp add: inv_open_def)
  from assms(3) y(1) obtain infos where
    infos: "nf ?u0 = Inr infos"
           "set infos = {(v, Finite (norm_cell (cell_sub v ?u0))) | v. is_edge sh k ?u0 v}"
    unfolding nf_edges_def by blast
  have sp: "?sp = s\<lparr>OPEN := filter (\<lambda>e. fst e \<noteq> ?u0) (OPEN s)\<rparr>" using pop(3) by simp
  have Ip: "Inv0 sh k st t h ?sp" unfolding sp by (rule pop_Inv0 [OF assms(1,5)])
  have Sp: "Settled sh k t ?sp {?u0}" unfolding sp by (rule pop_Settled [OF assms(2)])
  have gp: "g_arr ?sp ?u0 = Finite y" using y(2) by simp
  have cs: "\<forall>e \<in> set infos. is_edge sh k ?u0 (fst e)
               \<and> snd e = Finite (norm_cell (cell_sub (fst e) ?u0))"
    unfolding infos(2) by auto
  from relax_children_step [OF Ip Sp gp cs] obtain s' where
    s': "relax_children sh 1 h t ?u0 ?sp infos = Inr s'"
        "Inv0 sh k st t h s'" "Settled sh k t s' {?u0}" "g_arr s' ?u0 = Finite y"
        "\<forall>e \<in> set infos. cost_le (g_arr s' (fst e)) (Finite (y + norm_cell (cell_sub (fst e) ?u0)))"
        "MS sh k st (g_arr s') \<subset> MS sh k st (g_arr ?sp) \<or> s' = ?sp"
    by blast
  have S: "Settled sh k t s' {}"
    unfolding Settled_def
  proof (intro allI impI)
    fix u yu v
    assume a: "g_arr s' u = Finite yu" "u \<notin> fst ` set (OPEN s')" "u \<noteq> t" "u \<notin> {}"
              "is_edge sh k u v"
    show "cost_le (g_arr s' v) (Finite (yu + norm_cell (cell_sub v u)))"
    proof (cases "u = ?u0")
      case True
      then have "yu = y" using a(1) s'(4) by simp
      moreover have "(v, Finite (norm_cell (cell_sub v ?u0))) \<in> set infos"
        unfolding infos(2) using a(5) True by blast
      ultimately show ?thesis using s'(5) True by force
    next
      case False
      with s'(3) a show ?thesis unfolding Settled_def by blast
    qed
  qed
  have M: "(s', s) \<in> measures [\<lambda>s. card (MS sh k st (g_arr s)), \<lambda>s. length (OPEN s)]"
  proof (cases "s' = ?sp")
    case True
    then show ?thesis using pop(4) by simp
  next
    case False
    with s'(6) have "MS sh k st (g_arr s') \<subset> MS sh k st (g_arr s)" by simp
    then have "card (MS sh k st (g_arr s')) < card (MS sh k st (g_arr s))"
      by (rule psubset_card_mono [OF finite_MS])
    then show ?thesis by simp
  qed
  from infos(1) s'(1,2) S M show ?thesis by blast
qed

lemma astar_loop_correct:
  assumes "admissible sh k h t" "nf_edges nf sh k" "grid_path sh k st t ys0"
  shows "Inv0 sh k st t h s \<Longrightarrow> Settled sh k t s {} \<Longrightarrow>
         \<exists>s'. astar_loop nf sh 1 h t s = Some (Inr (True, s')) \<and> search_post sh k st t s'"
proof (induction s rule: wf_induct_rule
         [OF wf_measures [of "[\<lambda>s. card (MS sh k st (g_arr s)), \<lambda>s. length (OPEN s)]"]])
  case (1 s)
  from open_nonempty [OF "1.prems" assms(1,3)] obtain m q' where
    pop: "popitem (OPEN s) = Some (m, q')"
    using popitem_None [of "OPEN s"] by (cases "popitem (OPEN s)") auto
  show ?case
  proof (cases "fst m = t")
    case True
    have "astar_loop nf sh 1 h t s = Some (Inr (True, s\<lparr>OPEN := q'\<rparr>))"
      by (subst astar_loop.simps) (simp add: pop True)
    with target_popped [OF "1.prems" assms(1) pop True] show ?thesis by blast
  next
    case False
    from expand_step [OF "1.prems" assms(2) pop False] obtain infos s' where
      st: "nf (fst m) = Inr infos"
          "relax_children sh 1 h t (fst m) (s\<lparr>OPEN := q'\<rparr>) infos = Inr s'"
          "Inv0 sh k st t h s'" "Settled sh k t s' {}"
          "(s', s) \<in> measures [\<lambda>s. card (MS sh k st (g_arr s)), \<lambda>s. length (OPEN s)]"
      by blast
    have ne: "\<not> (fst (fst m) = fst t \<and> snd (fst m) = snd t)"
      using False by (simp add: prod_eq_iff)
    have "astar_loop nf sh 1 h t s = astar_loop nf sh 1 h t s'"
      by (subst astar_loop.simps) (simp add: pop ne st(1,2) Let_def)
    with "1.IH" [OF st(5,3,4)] show ?thesis by simp
  qed
qed

lemma is_walk_snoc:
  "xs \<noteq> [] \<Longrightarrow> is_walk E (xs @ [a]) = (is_walk E xs \<and> E (last xs) a)"
  by (induction xs rule: induct_list012) auto

lemma path_cost_snoc:
  "xs \<noteq> [] \<Longrightarrow> path_cost (xs @ [a]) = path_cost xs + norm_cell (cell_sub a (last xs))"
  by (induction xs rule: induct_list012) auto

lemma finite_below: "finite (below sh g pos)"
  by (rule finite_subset [OF _ finite_grid [of sh]]) (auto simp add: below_def)

lemma below_less:
  assumes "in_grid sh u" "g u = Finite y" "g pos = Finite x" "y < x"
  shows "card (below sh g u) < card (below sh g pos)"
proof -
  have "below sh g u \<subseteq> below sh g pos"
  proof
    fix v assume "v \<in> below sh g u"
    then have v: "in_grid sh v" "cost_gt (Finite y) (g v)" using assms(2) by (simp_all add: below_def)
    then obtain z where "g v = Finite z" "z < y" by (cases "g v") simp_all
    then show "v \<in> below sh g pos" using v(1) assms(3,4) by (simp add: below_def)
  qed
  moreover have "u \<in> below sh g pos" using assms by (simp add: below_def)
  moreover have "u \<notin> below sh g u" using assms(2) by (simp add: below_def)
  ultimately have "below sh g u \<subset> below sh g pos" by blast
  then show ?thesis by (rule psubset_card_mono [OF finite_below])
qed

lemma backtrack_correct:
  assumes "inv_start sh st s" "inv_J sh k st (g_arr s)" "inv_pred sh k st s"
  shows "g_arr s pos = Finite x \<Longrightarrow>
         \<exists>chain. backtrack sh (pred_arr s) st pos acc = Some (Inr (acc @ chain))
            \<and> grid_path sh k st pos (rev chain) \<and> path_cost (rev chain) \<le> x"
proof (induction pos arbitrary: acc x
         rule: measure_induct_rule [where f = "\<lambda>pos. card (below sh (g_arr s) pos)"])
  case (less pos)
  have gpos: "in_grid sh pos" using inv_J_in_grid [OF assms(2) less.prems] .
  have x0: "0 \<le> x" using inv_J_nonneg [OF assms(2) less.prems] .
  show ?case
  proof (cases "pos = st")
    case True
    have "backtrack sh (pred_arr s) st pos acc = Some (Inr (acc @ [pos]))"
      by (subst backtrack.simps) (simp add: True)
    moreover have "grid_path sh k st pos (rev [pos])" using True gpos by (simp add: grid_path_def)
    moreover have "path_cost (rev [pos]) \<le> x" using x0 by simp
    ultimately show ?thesis by blast
  next
    case False
    let ?u = "pred_arr s pos"
    from assms(3) less.prems False obtain y where
      u: "is_edge sh k ?u pos" "g_arr s ?u = Finite y" "y + norm_cell (cell_sub pos ?u) \<le> x"
      unfolding inv_pred_def by blast
    have gu: "in_grid sh ?u" using u(1) by (simp add: is_edge_def)
    have "y < x" using u(3) edge_cost_pos [OF u(1)] by linarith
    from below_less [OF gu u(2) less.prems this]
    have m: "card (below sh (g_arr s) ?u) < card (below sh (g_arr s) pos)" .
    from less.IH [OF m u(2), of "acc @ [pos]"] obtain chain where
      c: "backtrack sh (pred_arr s) st ?u (acc @ [pos]) = Some (Inr ((acc @ [pos]) @ chain))"
         "grid_path sh k st ?u (rev chain)" "path_cost (rev chain) \<le> y"
      by blast
    have ne: "\<not> (fst pos = fst st \<and> snd pos = snd st)" using False by (simp add: prod_eq_iff)
    have "backtrack sh (pred_arr s) st pos acc = Some (Inr (acc @ (pos # chain)))"
      by (subst backtrack.simps) (simp add: ne arr_get_in_grid [OF gpos] c(1))
    moreover have rc: "rev chain \<noteq> []" "hd (rev chain) = st" "last (rev chain) = ?u"
        "is_walk (is_edge sh k) (rev chain)" "in_grid sh st"
      using c(2) by (simp_all add: grid_path_def)
    have "grid_path sh k st pos (rev (pos # chain))"
      using rc u(1) by (simp add: grid_path_def is_walk_snoc)
    moreover have "path_cost (rev (pos # chain)) \<le> x"
      using rc(1,3) c(3) u(3) by (simp add: path_cost_snoc)
    ultimately show ?thesis by blast
  qed
qed

lemma init_search_eq:
  assumes "in_grid sh st"
  shows "init_search sh 1 h st t = Inr \<lparr>g_arr = (\<lambda>c. Infinite)(st := Finite 0),
               OPEN = [(st, Finite (h (cell_sub st t)))],
               pred_arr = (\<lambda>c. (- 1, - 1))\<rparr>"
  using assms by (simp add: init_search_def arr_set_in_grid arr_get_in_grid pq_set_def)

lemma init_search_Inv0:
  assumes "in_grid sh st" "st \<noteq> t"
  shows "\<exists>s0. init_search sh 1 h st t = Inr s0 \<and> Inv0 sh k st t h s0 \<and> Settled sh k t s0 {}"
proof -
  define s0 where "s0 = \<lparr>g_arr = (\<lambda>c. Infinite)(st := Finite 0),
               OPEN = [(st, Finite (h (cell_sub st t)))],
               pred_arr = (\<lambda>c. (- 1, - 1))\<rparr>"
  have eq: "init_search sh 1 h st t = Inr s0"
    unfolding s0_def by (rule init_search_eq [OF assms(1)])
  have g: "g_arr s0 = (\<lambda>c. Infinite)(st := Finite 0)" and o: "OPEN s0 = [(st, Finite (h (cell_sub st t)))]"
    by (simp_all add: s0_def)
  have gst: "g_arr s0 st = Finite 0" by (simp add: g)
  have fin: "v = st \<and> x = 0" if "g_arr s0 v = Finite x" for v x
  proof (cases "v = st")
    case True
    then show ?thesis using that gst by simp
  next
    case False
    then have "g_arr s0 v = Infinite" by (simp add: g)
    then show ?thesis using that by simp
  qed
  have "inv_start sh st s0" using assms(1) gst by (simp add: inv_start_def)
  moreover have "inv_open sh t h s0" using assms(1) gst by (simp add: inv_open_def o)
  moreover have "inv_J sh k st (g_arr s0)"
    unfolding inv_J_def
  proof (intro allI impI)
    fix v x assume "g_arr s0 v = Finite x"
    from fin [OF this] have "v = st" "x = 0" by simp_all
    then have "good sh k st (g_arr s0) (v # []) \<and> rcost (v # []) = x" using assms(1) gst by simp
    then show "\<exists>rest. good sh k st (g_arr s0) (v # rest) \<and> rcost (v # rest) = x" by blast
  qed
  moreover have "inv_pred sh k st s0" unfolding inv_pred_def using fin by blast
  moreover have "inv_target t s0" using assms(2) by (simp add: inv_target_def o g)
  moreover have "Settled sh k t s0 {}"
    unfolding Settled_def
  proof (intro allI impI)
    fix u y v assume a: "g_arr s0 u = Finite y" "u \<notin> fst ` set (OPEN s0)"
    from fin [OF a(1)] have "u = st" by simp
    with a(2) have False by (simp add: o)
    then show "cost_le (g_arr s0 v) (Finite (y + norm_cell (cell_sub v u)))" ..
  qed
  ultimately show ?thesis using eq by (simp add: Inv0_def)
qed

lemma grid_connected:
  assumes "1 \<le> k" "in_grid sh b"
  shows "in_grid sh a \<Longrightarrow> \<exists>ys. grid_path sh k a b ys"
proof (induction a rule: measure_induct_rule
         [where f = "\<lambda>a. nat (\<bar>fst b - fst a\<bar> + \<bar>snd b - snd a\<bar>)"])
  case (less a)
  show ?case
  proof (cases "a = b")
    case True
    then have "grid_path sh k a b [a]" using less.prems by (simp add: grid_path_def)
    then show ?thesis by blast
  next
    case False
    define a' where "a' = (fst a + sgn (fst b - fst a), snd a + sgn (snd b - snd a))"
    have ne: "fst a \<noteq> fst b \<or> snd a \<noteq> snd b" using False by (simp add: prod_eq_iff)
    have g': "in_grid sh a'"
      using less.prems assms(2) by (auto simp add: a'_def in_grid_def sgn_if)
    have e: "is_edge sh k a a'"
      using less.prems g' ne assms(1)
      by (auto simp add: is_edge_def a'_def sgn_if prod_eq_iff)
    have m: "nat (\<bar>fst b - fst a'\<bar> + \<bar>snd b - snd a'\<bar>) < nat (\<bar>fst b - fst a\<bar> + \<bar>snd b - snd a\<bar>)"
      using ne by (auto simp add: a'_def sgn_if)
    from less.IH [OF m g'] obtain ys where ys: "grid_path sh k a' b ys" by blast
    then obtain rest where r: "ys = a' # rest" by (cases ys) (auto simp add: grid_path_def)
    have "grid_path sh k a b (a # ys)"
      using ys e less.prems unfolding r by (simp add: grid_path_def)
    then show ?thesis by blast
  qed
qed

lemma nf_edges_clear:
  assumes "obstacle_free bm" "rt_in_range rt (bm_shape bm)"
  shows "nf_edges (get_n_grid_neighbors rt n bm) (bm_shape bm) (window n)"
  unfolding nf_edges_def using neighbors_clear [OF assms] by blast

lemma plan_algo_optimal:
  assumes "nf_edges (neighbor_func p (get_binary_map (p_map p))) (bm_shape (get_binary_map (p_map p))) k"
      and "eps p = 1" "1 \<le> k"
      and "in_grid (bm_shape (get_binary_map (p_map p))) st"
      and "in_grid (bm_shape (get_binary_map (p_map p))) t"
      and "admissible (bm_shape (get_binary_map (p_map p))) k (heuristic p) t"
  shows "\<exists>xs. plan_algo p st t = Some (Inr (p\<lparr>p_path := Some xs\<rparr>, True))
           \<and> grid_path (bm_shape (get_binary_map (p_map p))) k st t xs
           \<and> (\<forall>ys. grid_path (bm_shape (get_binary_map (p_map p))) k st t ys \<longrightarrow>
                  path_cost xs \<le> path_cost ys)"
proof (cases "st = t")
  case True
  have "plan_algo p st t = Some (Inr (p\<lparr>p_path := Some [st]\<rparr>, True))"
    using True by (simp add: plan_algo_def)
  moreover have "grid_path (bm_shape (get_binary_map (p_map p))) k st t [st]"
    using True assms(4) by (simp add: grid_path_def)
  ultimately show ?thesis by auto
next
  case False
  let ?bm = "get_binary_map (p_map p)"
  let ?sh = "bm_shape ?bm"
  let ?h = "heuristic p"
  from init_search_Inv0 [OF assms(4) False, of ?h k] obtain s0 where
    s0: "init_search ?sh 1 ?h st t = Inr s0" "Inv0 ?sh k st t ?h s0" "Settled ?sh k t s0 {}"
    by blast
  from grid_connected [OF assms(3,5,4)] obtain ys0 where ys0: "grid_path ?sh k st t ys0" by blast
  from astar_loop_correct [OF assms(6,1) ys0 s0(2,3)] obtain s' where
    s': "astar_loop (neighbor_func p ?bm) ?sh 1 ?h t s0 = Some (Inr (True, s'))"
        "search_post ?sh k st t s'"
    by blast
  from s'(2) obtain x where
    post: "inv_start ?sh st s'" "inv_J ?sh k st (g_arr s')" "inv_pred ?sh k st s'"
          "g_arr s' t = Finite x" "\<forall>ys. grid_path ?sh k st t ys \<longrightarrow> x \<le> path_cost ys"
    unfolding search_post_def by blast
  from backtrack_correct [OF post(1,2,3,4), of "[]"] obtain chain where
    c: "backtrack ?sh (pred_arr s') st t [] = Some (Inr ([] @ chain))"
       "grid_path ?sh k st t (rev chain)" "path_cost (rev chain) \<le> x"
    by blast
  have ne: "\<not> (fst st = fst t \<and> snd st = snd t)" using False by (simp add: prod_eq_iff)
  have "plan_algo p st t = Some (Inr (p\<lparr>p_path := Some (rev chain)\<rparr>, True))"
    unfolding plan_algo_def if_not_P [OF ne] Let_def
    using s0(1) s'(1) c(1) assms(2) by simp
  moreover have "\<forall>ys. grid_path ?sh k st t ys \<longrightarrow> path_cost (rev chain) \<le> path_cost ys"
    using post(5) c(3) by fastforce
  ultimately show ?thesis using c(2) by blast
qed

text \<open>
  Claim C6. On a grid without obstacles, with the inflation factor 1 and an admissible
  heuristic, \<open>plan\<close> returns, for start and target cells of the grid, and stores a path
  from the start cell to the target cell along edges of the neighbour strategy
  \<open>get_n_grid_neighbors\<close> whose cost is the least among all such paths: the exact
  cost of a shortest path. In particular the search and the backtracking both end.
\<close>

theorem plan_returns_shortest_path:
  assumes "neighbor_func p = get_n_grid_neighbors rt n" "eps p = 1"
      and "obstacle_free (get_binary_map (p_map p))"
      and "rt_in_range rt (bm_shape (get_binary_map (p_map p)))"
      and "in_grid (bm_shape (get_binary_map (p_map p))) (convert_to_grid_coord (p_map p) start)"
      and "in_grid (bm_shape (get_binary_map (p_map p))) (convert_to_grid_coord (p_map p) target)"
      and "admissible (bm_shape (get_binary_map (p_map p))) (window n) (heuristic p)
             (convert_to_grid_coord (p_map p) target)"
  shows "\<exists>p' xs. plan p start target = Some (Inr (p', True)) \<and> p_path p' = Some xs
           \<and> grid_path (bm_shape (get_binary_map (p_map p))) (window n)
                (convert_to_grid_coord (p_map p) start) (convert_to_grid_coord (p_map p) target) xs
           \<and> (\<forall>ys. grid_path (bm_shape (get_binary_map (p_map p))) (window n)
                      (convert_to_grid_coord (p_map p) start) (convert_to_grid_coord (p_map p) target) ys
                    \<longrightarrow> path_cost xs \<le> path_cost ys)"
proof -
  let ?bm = "get_binary_map (p_map p)"
  have nf: "nf_edges (neighbor_func p ?bm) (bm_shape ?bm) (window n)"
    unfolding assms(1) by (rule nf_edges_clear [OF assms(3,4)])
  from plan_algo_optimal [OF nf assms(2) window_pos assms(5,6,7)] obtain xs where
    xs: "plan_algo p (convert_to_grid_coord (p_map p) start) (convert_to_grid_coord (p_map p) target)
           = Some (Inr (p\<lparr>p_path := Some xs\<rparr>, True))"
        "grid_path (bm_shape ?bm) (window n)
           (convert_to_grid_coord (p_map p) start) (convert_to_grid_coord (p_map p) target) xs"
        "\<forall>ys. grid_path (bm_shape ?bm) (window n)
                 (convert_to_grid_coord (p_map p) start) (convert_to_grid_coord (p_map p) target) ys
               \<longrightarrow> path_cost xs \<le> path_cost ys"
    by blast
  have "plan p start target = Some (Inr (p\<lparr>p_path := Some xs, p_path_idx := Some 0\<rparr>, True))"
    using xs(1) by (simp add: plan_def Let_def)
  with xs(2,3) show ?thesis by simp
qed

lemma norm_cell_triangle:
  "norm_cell (cell_sub u t) \<le> norm_cell (cell_sub v u) + norm_cell (cell_sub v t)"
proof -
  let ?a = "real_of_int (fst u - fst v)" and ?b = "real_of_int (snd u - snd v)"
  let ?c = "real_of_int (fst v - fst t)" and ?d = "real_of_int (snd v - snd t)"
  have n: "norm_cell w = sqrt ((real_of_int (fst w))\<^sup>2 + (real_of_int (snd w))\<^sup>2)" for w
    by (simp add: norm_cell_def power2_eq_square)
  have "sqrt ((?a + ?c)\<^sup>2 + (?b + ?d)\<^sup>2) \<le> sqrt (?a\<^sup>2 + ?b\<^sup>2) + sqrt (?c\<^sup>2 + ?d\<^sup>2)"
    by (rule real_sqrt_sum_squares_triangle_ineq)
  moreover have "?a + ?c = real_of_int (fst u - fst t)" "?b + ?d = real_of_int (snd u - snd t)"
    by simp_all
  ultimately have "norm_cell (cell_sub u t) \<le> norm_cell (cell_sub u v) + norm_cell (cell_sub v t)"
    unfolding n by (simp add: cell_sub_def)
  then show ?thesis by (simp add: norm_cell_sym [of u v])
qed

lemma norm_cell_walk:
  "last (u # zs) = t \<Longrightarrow> norm_cell (cell_sub u t) \<le> path_cost (u # zs)"
proof (induction zs arbitrary: u)
  case Nil
  then show ?case by (simp add: cell_sub_def norm_cell_def)
next
  case (Cons v zs)
  then have "norm_cell (cell_sub v t) \<le> path_cost (v # zs)" by simp
  with norm_cell_triangle [of u t v] show ?case by simp
qed

lemma norm_cell_admissible: "admissible sh k norm_cell t"
  unfolding admissible_def
proof (intro conjI allI impI)
  show "0 \<le> norm_cell (cell_sub t t)" by simp
next
  fix u xs assume "grid_path sh k u t xs"
  then obtain zs where z: "xs = u # zs" "last (u # zs) = t"
    by (cases xs) (auto simp add: grid_path_def)
  from norm_cell_walk [OF z(2)] show "norm_cell (cell_sub u t) \<le> path_cost xs"
    unfolding z(1) .
qed

theorem plan_returns_shortest_path_witness:
  "neighbor_func (demo_planner\<lparr>p_map := clear_grid\<rparr>) = get_n_grid_neighbors demo_raytrace 3
   \<and> eps (demo_planner\<lparr>p_map := clear_grid\<rparr>) = 1
   \<and> obstacle_free (get_binary_map clear_grid)
   \<and> rt_in_range demo_raytrace (bm_shape (get_binary_map clear_grid))
   \<and> in_grid (bm_shape (get_binary_map clear_grid)) (convert_to_grid_coord clear_grid (0, 0))
   \<and> in_grid (bm_shape (get_binary_map clear_grid)) (convert_to_grid_coord clear_grid (0, 2))
   \<and> admissible (bm_shape (get_binary_map clear_grid)) (window 3)
        (heuristic (demo_planner\<lparr>p_map := clear_grid\<rparr>)) (convert_to_grid_coord clear_grid (0, 2))
   \<and> (\<exists>p' xs. plan (demo_planner\<lparr>p_map := clear_grid\<rparr>) (0, 0) (0, 2) = Some (Inr (p', True))
          \<and> p_path p' = Some xs
          \<and> grid_path (1, 3) (window 3) (0, 0) (0, 2) xs
          \<and> (\<forall>ys. grid_path (1, 3) (window 3) (0, 0) (0, 2) ys \<longrightarrow> path_cost xs \<le> path_cost ys))"
proof -
  let ?p = "demo_planner\<lparr>p_map := clear_grid\<rparr>"
  have m: "p_map ?p = clear_grid" by simp
  have sh: "bm_shape (get_binary_map clear_grid) = (1, 3)"
    by (simp add: clear_grid_def)
  have cv: "convert_to_grid_coord clear_grid (0, 0) = (0, 0)"
           "convert_to_grid_coord clear_grid (0, 2) = (0, 2)"
    by (simp_all add: clear_grid_def demo_grid_def)
  have h1: "neighbor_func ?p = get_n_grid_neighbors demo_raytrace 3" by (simp add: demo_planner_def)
  have h2: "eps ?p = 1" by (simp add: demo_planner_def)
  have h3: "obstacle_free (get_binary_map clear_grid)"
    by (simp add: obstacle_free_def clear_grid_def)
  have h4: "rt_in_range demo_raytrace (bm_shape (get_binary_map clear_grid))"
    unfolding rt_in_range_def
  proof (intro allI impI ballI)
    fix a b c
    assume "in_grid (bm_shape (get_binary_map clear_grid)) a"
           "in_grid (bm_shape (get_binary_map clear_grid)) b" "c \<in> set (demo_raytrace a b)"
    then have "in_grid (bm_shape (get_binary_map clear_grid)) c"
      by (auto simp add: demo_raytrace_def split: if_splits)
    then show "index2 (bm_shape (get_binary_map clear_grid)) c \<noteq> None"
      by (simp add: index2_in_grid)
  qed
  have h5: "in_grid (bm_shape (get_binary_map clear_grid)) (convert_to_grid_coord clear_grid (0, 0))"
    unfolding sh cv by (simp add: in_grid_def)
  have h6: "in_grid (bm_shape (get_binary_map clear_grid)) (convert_to_grid_coord clear_grid (0, 2))"
    unfolding sh cv by (simp add: in_grid_def)
  have hh: "heuristic ?p = norm_cell" by (simp add: demo_planner_def)
  have h7: "admissible (bm_shape (get_binary_map clear_grid)) (window 3) (heuristic ?p)
              (convert_to_grid_coord clear_grid (0, 2))"
    unfolding hh by (rule norm_cell_admissible)
  from plan_returns_shortest_path [of ?p demo_raytrace 3 "(0, 0)" "(0, 2)", unfolded m, OF h1 h2 h3 h4 h5 h6 h7]
  have "\<exists>p' xs. plan ?p (0, 0) (0, 2) = Some (Inr (p', True))
          \<and> p_path p' = Some xs
          \<and> grid_path (1, 3) (window 3) (0, 0) (0, 2) xs
          \<and> (\<forall>ys. grid_path (1, 3) (window 3) (0, 0) (0, 2) ys \<longrightarrow> path_cost xs \<le> path_cost ys)"
    unfolding sh cv .
  with h1 h2 h3 h4 h5 h6 h7 show ?thesis by blast
qed

end
